theory Spec2Isabelle
  imports Main "HOL-Library.Sublist"
begin

section \<open>Source text\<close>

text \<open>
  A source text is a JavaScript string, modelled as a list of code units. The code units
  are those below 256, written as \<^typ>\<open>char\<close>; offsets and lengths count code units, as
  the indices of the source do.
\<close>

definition code_unit :: "char \<Rightarrow> nat" where
  "code_unit c = of_char c"

definition is_digit :: "char \<Rightarrow> bool" where
  "is_digit c = (48 \<le> code_unit c \<and> code_unit c \<le> 57)"

definition is_space :: "char \<Rightarrow> bool" where
  "is_space c = (code_unit c \<in> {9, 10, 11, 12, 13, 32, 160})"

definition is_word :: "char \<Rightarrow> bool" where
  "is_word c = ((97 \<le> code_unit c \<and> code_unit c \<le> 122) \<or> (65 \<le> code_unit c \<and> code_unit c \<le> 90)
      \<or> is_digit c \<or> code_unit c = 95)"

definition is_line_terminator :: "char \<Rightarrow> bool" where
  "is_line_terminator c = (code_unit c = 10 \<or> code_unit c = 13)"

section \<open>Patterns\<close>

text \<open>
  The helpers build their patterns with \<^verbatim>\<open>new RegExp\<close> from texts that contain their
  parameters, and match them by backtracking. A pattern is kept as a syntax tree; the
  matcher returns all the ways in which a pattern matches at a position, in the order in
  which backtracking tries them, so that the head of the list is the match that is taken.
  A state of the matcher is the text read so far (reversed), the text still to read and
  the texts of the capture groups.
\<close>

datatype cclass = Digits | Spaces | WordChars

datatype citem = CRange char char | Esc bool cclass

fun in_cclass :: "cclass \<Rightarrow> char \<Rightarrow> bool" where
  "in_cclass Digits c = is_digit c"
| "in_cclass Spaces c = is_space c"
| "in_cclass WordChars c = is_word c"

fun in_item :: "citem \<Rightarrow> char \<Rightarrow> bool" where
  "in_item (CRange a b) c = (code_unit a \<le> code_unit c \<and> code_unit c \<le> code_unit b)"
| "in_item (Esc neg k) c = (in_cclass k c \<noteq> neg)"

datatype regex =
    Empty
  | Chr char
  | Dot
  | Class bool "citem list"
  | Seq regex regex
  | Alt regex regex
  | Rep regex nat "nat option" bool
  | Group nat regex
  | Look bool regex
  | WordB bool
  | Bol
  | Eol

type_synonym mstate = "string \<times> string \<times> string option list"

fun rsize :: "regex \<Rightarrow> nat" where
  "rsize (Seq a b) = Suc (rsize a + rsize b)"
| "rsize (Alt a b) = Suc (rsize a + rsize b)"
| "rsize (Rep r mn mx g) = Suc (rsize r)"
| "rsize (Group k r) = Suc (rsize r)"
| "rsize (Look p r) = Suc (rsize r)"
| "rsize _ = 0"

fun rep_min :: "regex \<Rightarrow> nat" where
  "rep_min (Rep r mn mx g) = mn"
| "rep_min _ = 0"

fun groups :: "regex \<Rightarrow> nat list" where
  "groups (Seq a b) = groups a @ groups b"
| "groups (Alt a b) = groups a @ groups b"
| "groups (Rep r mn mx g) = groups r"
| "groups (Group k r) = k # groups r"
| "groups (Look p r) = groups r"
| "groups _ = []"

fun reset_groups :: "nat list \<Rightarrow> string option list \<Rightarrow> string option list" where
  "reset_groups [] caps = caps"
| "reset_groups (k # ks) caps = reset_groups ks (caps[k - 1 := None])"

fun step_char :: "(char \<Rightarrow> bool) \<Rightarrow> mstate \<Rightarrow> mstate list" where
  "step_char P (pre, [], caps) = []"
| "step_char P (pre, x # xs, caps) = (if P x then [(x # pre, xs, caps)] else [])"

fun dec :: "nat option \<Rightarrow> nat option" where
  "dec None = None"
| "dec (Some n) = Some (n - 1)"

function ms :: "regex \<Rightarrow> mstate \<Rightarrow> mstate list" where
  "ms Empty st = [st]"
| "ms (Chr c) st = step_char (\<lambda>x. x = c) st"
| "ms Dot st = step_char (\<lambda>x. \<not> is_line_terminator x) st"
| "ms (Class neg items) st = step_char (\<lambda>x. (\<exists>it \<in> set items. in_item it x) \<noteq> neg) st"
| "ms (Seq a b) st = concat (map (ms b) (ms a st))"
| "ms (Alt a b) st = ms a st @ ms b st"
| "ms (Group k r) (pre, post, caps) =
     map (\<lambda>(pre', post', caps').
            (pre', post', caps'[k - 1 := Some (rev (take (length pre' - length pre) pre'))]))
         (ms r (pre, post, caps))"
| "ms (Look pos r) (pre, post, caps) =
     (case ms r (pre, post, caps) of
        [] \<Rightarrow> if pos then [] else [(pre, post, caps)]
      | (pre', post', caps') # _ \<Rightarrow> if pos then [(pre, post, caps')] else [])"
| "ms (WordB b) (pre, post, caps) =
     (let a = (case pre of [] \<Rightarrow> False | x # _ \<Rightarrow> is_word x);
          z = (case post of [] \<Rightarrow> False | x # _ \<Rightarrow> is_word x)
      in if (a \<noteq> z) = b then [(pre, post, caps)] else [])"
| "ms Bol (pre, post, caps) = (if pre = [] then [(pre, post, caps)] else [])"
| "ms Eol (pre, post, caps) = (if post = [] then [(pre, post, caps)] else [])"
| "ms (Rep r mn mx g) (pre, post, caps) =
     (if mx = Some 0 then [(pre, post, caps)]
      else
        let iter = concat (map (ms (Rep r (mn - 1) (dec mx) g))
                     (filter (\<lambda>(pre', post', caps'). 0 < mn \<or> length post' < length post)
                        (ms r (pre, post, reset_groups (groups r) caps))))
        in if 0 < mn then iter
           else if g then iter @ [(pre, post, caps)]
           else (pre, post, caps) # iter)"
  by pat_completeness auto
termination
  by (relation "measures [\<lambda>(r, st). rsize r, \<lambda>(r, st). rep_min r, \<lambda>(r, pre, post, caps). length post]")
     auto

text \<open>The equation of a repetition unfolds into itself; it is applied by hand.\<close>

lemmas ms_Rep = ms.simps(12)

declare ms.simps(12) [simp del]


section \<open>Pattern syntax\<close>

text \<open>
  \<^verbatim>\<open>new RegExp(source)\<close> reads the pattern syntax of the language without the flag
  \<^verbatim>\<open>u\<close>: alternatives, groups (capturing, \<^verbatim>\<open>(?:\<close>, \<^verbatim>\<open>(?=\<close>, \<^verbatim>\<open>(?!\<close>), the quantifiers
  \<^verbatim>\<open>* + ?\<close> and \<^verbatim>\<open>{n}\<close>, \<^verbatim>\<open>{n,}\<close>, \<^verbatim>\<open>{n,m}\<close> with their lazy forms, character classes,
  the escapes \<^verbatim>\<open>\d \D \s \S \w \W \b \B \f \n \r \t \v\<close>, escaped punctuation and letters,
  \<^verbatim>\<open>^\<close>, \<^verbatim>\<open>$\<close> and \<^verbatim>\<open>.\<close>. A source that the language rejects gives \<open>SyntaxError\<close>, the
  exception that the constructor throws. Back references, numeric, \<^verbatim>\<open>\x\<close>, \<^verbatim>\<open>\u\<close>,
  \<^verbatim>\<open>\c\<close> and \<^verbatim>\<open>\k\<close> escapes, look-behind, named groups and modifiers are not read:
  a source with one of them gives \<open>Unsupported\<close>. That is no exception of the language
  but the mark of a source outside this syntax, about which nothing is stated; what
  holds of the mutators for every pattern is proved with the constructor as a parameter
  (section on the regular expressions of the host), and does not rest on this syntax.
\<close>

datatype error = SyntaxError | Unsupported

abbreviation bsl :: char where "bsl \<equiv> CHR 0x5C"

fun mk_seq :: "regex list \<Rightarrow> regex" where
  "mk_seq [] = Empty"
| "mk_seq [t] = t"
| "mk_seq (t # ts) = Seq t (mk_seq ts)"

fun mk_alt :: "regex list \<Rightarrow> regex" where
  "mk_alt [] = Empty"
| "mk_alt [a] = a"
| "mk_alt (a # as) = Alt a (mk_alt as)"

definition num :: "string \<Rightarrow> nat" where
  "num ds = foldl (\<lambda>a d. 10 * a + (code_unit d - 48)) 0 ds"

text \<open>The text after an opening brace, read as a braced quantifier.\<close>

definition braces :: "string \<Rightarrow> ((nat \<times> nat option) \<times> string) option" where
  \<open>braces s =
     (let ds = takeWhile is_digit s; r = dropWhile is_digit s
      in if ds = [] then None
         else case r of
           [] \<Rightarrow> None
         | c # r1 \<Rightarrow>
             if c = CHR ''}'' then Some ((num ds, Some (num ds)), r1)
             else if c = CHR '','' then
               (let ds2 = takeWhile is_digit r1; r2 = dropWhile is_digit r1
                in case r2 of
                     [] \<Rightarrow> None
                   | c2 # r3 \<Rightarrow>
                       if c2 = CHR ''}'' then
                         Some ((num ds, if ds2 = [] then None else Some (num ds2)), r3)
                       else None)
             else None)\<close>

text \<open>The text after an opening bracket, split at the first bracket that is not escaped.\<close>

fun class_body :: "string \<Rightarrow> (string \<times> string) option" where
  \<open>class_body [] = None\<close>
| \<open>class_body (c # cs) =
     (if c = CHR '']'' then Some ([], cs)
      else if c = bsl then
        (case cs of
           [] \<Rightarrow> None
         | e # cs' \<Rightarrow> map_option (\<lambda>(b, r). (c # e # b, r)) (class_body cs'))
      else map_option (\<lambda>(b, r). (c # b, r)) (class_body cs))\<close>

datatype catom = ADash | AItem citem | AErr error

definition class_escape :: "char \<Rightarrow> catom" where
  \<open>class_escape e =
     (if e = CHR ''d'' then AItem (Esc False Digits)
      else if e = CHR ''D'' then AItem (Esc True Digits)
      else if e = CHR ''s'' then AItem (Esc False Spaces)
      else if e = CHR ''S'' then AItem (Esc True Spaces)
      else if e = CHR ''w'' then AItem (Esc False WordChars)
      else if e = CHR ''W'' then AItem (Esc True WordChars)
      else if e = CHR ''b'' then AItem (CRange (CHR 0x08) (CHR 0x08))
      else if e = CHR ''f'' then AItem (CRange (CHR 0x0C) (CHR 0x0C))
      else if e = CHR ''n'' then AItem (CRange (CHR 0x0A) (CHR 0x0A))
      else if e = CHR ''r'' then AItem (CRange (CHR 0x0D) (CHR 0x0D))
      else if e = CHR ''t'' then AItem (CRange (CHR 0x09) (CHR 0x09))
      else if e = CHR ''v'' then AItem (CRange (CHR 0x0B) (CHR 0x0B))
      else if is_digit e \<or> e \<in> set ''xuck'' then AErr Unsupported
      else AItem (CRange e e))\<close>

fun class_atoms :: "string \<Rightarrow> catom list" where
  \<open>class_atoms [] = []\<close>
| \<open>class_atoms (c # cs) =
     (if c = bsl then
        (case cs of
           [] \<Rightarrow> [AErr SyntaxError]
         | e # cs' \<Rightarrow> class_escape e # class_atoms cs')
      else if c = CHR ''-'' then ADash # class_atoms cs
      else AItem (CRange c c) # class_atoms cs)\<close>

fun atom_item :: "catom \<Rightarrow> error + citem" where
  \<open>atom_item ADash = Inr (CRange (CHR ''-'') (CHR ''-''))\<close>
| \<open>atom_item (AItem i) = Inr i\<close>
| \<open>atom_item (AErr e) = Inl e\<close>

fun class_range :: "citem \<Rightarrow> citem \<Rightarrow> error + citem list" where
  \<open>class_range (CRange a a') (CRange b b') =
     (if code_unit b < code_unit a then Inl SyntaxError else Inr [CRange a b])\<close>
| \<open>class_range x y = Inr [x, CRange (CHR ''-'') (CHR ''-''), y]\<close>

fun class_ranges :: "catom list \<Rightarrow> error + citem list" where
  \<open>class_ranges (a # ADash # b # rest) =
     (case atom_item a of Inl e \<Rightarrow> Inl e | Inr x \<Rightarrow>
       (case atom_item b of Inl e \<Rightarrow> Inl e | Inr y \<Rightarrow>
         (case class_range x y of Inl e \<Rightarrow> Inl e | Inr is \<Rightarrow>
           (case class_ranges rest of Inl e \<Rightarrow> Inl e | Inr js \<Rightarrow> Inr (is @ js)))))\<close>
| \<open>class_ranges (a # rest) =
     (case atom_item a of Inl e \<Rightarrow> Inl e | Inr x \<Rightarrow>
       (case class_ranges rest of Inl e \<Rightarrow> Inl e | Inr js \<Rightarrow> Inr (x # js)))\<close>
| \<open>class_ranges [] = Inr []\<close>

definition char_class :: "string \<Rightarrow> error + regex" where
  \<open>char_class body =
     (case body of
        [] \<Rightarrow> Inr (Class False [])
      | c # cs \<Rightarrow>
          if c = CHR ''^'' then
            (case class_ranges (class_atoms cs) of Inl e \<Rightarrow> Inl e | Inr is \<Rightarrow> Inr (Class True is))
          else
            (case class_ranges (class_atoms body) of Inl e \<Rightarrow> Inl e | Inr is \<Rightarrow> Inr (Class False is)))\<close>

definition atom_escape :: "char \<Rightarrow> error + regex \<times> bool" where
  \<open>atom_escape e =
     (if e = CHR ''d'' then Inr (Class False [Esc False Digits], True)
      else if e = CHR ''D'' then Inr (Class False [Esc True Digits], True)
      else if e = CHR ''s'' then Inr (Class False [Esc False Spaces], True)
      else if e = CHR ''S'' then Inr (Class False [Esc True Spaces], True)
      else if e = CHR ''w'' then Inr (Class False [Esc False WordChars], True)
      else if e = CHR ''W'' then Inr (Class False [Esc True WordChars], True)
      else if e = CHR ''b'' then Inr (WordB True, False)
      else if e = CHR ''B'' then Inr (WordB False, False)
      else if e = CHR ''f'' then Inr (Chr (CHR 0x0C), True)
      else if e = CHR ''n'' then Inr (Chr (CHR 0x0A), True)
      else if e = CHR ''r'' then Inr (Chr (CHR 0x0D), True)
      else if e = CHR ''t'' then Inr (Chr (CHR 0x09), True)
      else if e = CHR ''v'' then Inr (Chr (CHR 0x0B), True)
      else if is_digit e \<or> e \<in> set ''xuck'' then Inl Unsupported
      else Inr (Chr e, True))\<close>

datatype gkind = GTop | GCap nat | GNon | GLook bool

type_synonym frame = "gkind \<times> regex list \<times> (regex \<times> bool) list"

fun close_frame :: "frame \<Rightarrow> regex" where
  "close_frame (k, alts, cur) =
     (let body = mk_alt (rev (mk_seq (rev (map fst cur)) # alts))
      in case k of
           GTop \<Rightarrow> body
         | GCap n \<Rightarrow> Group n body
         | GNon \<Rightarrow> body
         | GLook p \<Rightarrow> Look p body)"

fun push_term :: "regex \<times> bool \<Rightarrow> frame list \<Rightarrow> frame list" where
  "push_term t [] = []"
| "push_term t ((k, alts, cur) # stack) = (k, alts, t # cur) # stack"

fun quantify :: "nat \<Rightarrow> nat option \<Rightarrow> bool \<Rightarrow> frame list \<Rightarrow> error + frame list" where
  "quantify mn mx g ((k, alts, (t, True) # cur) # stack) =
     (if (case mx of None \<Rightarrow> False | Some m \<Rightarrow> m < mn) then Inl SyntaxError
      else Inr ((k, alts, (Rep t mn mx g, False) # cur) # stack))"
| "quantify mn mx g stack = Inl SyntaxError"

lemma class_body_length: "class_body s = Some (b, r) \<Longrightarrow> length r < length s"
proof (induction s arbitrary: b r rule: class_body.induct)
  case 1
  then show ?case by simp
next
  case (2 c cs)
  then show ?case
    by (fastforce split: if_splits list.splits)
qed

lemma braces_length: "braces s = Some (q, r) \<Longrightarrow> length r < length s"
proof -
  have d: "length (dropWhile P xs) \<le> length xs" for P and xs :: string
    by (simp add: length_dropWhile_le)
  assume a: "braces s = Some (q, r)"
  have "dropWhile is_digit s = c # r1 \<Longrightarrow> length r1 < length s" for c r1
    using d [of is_digit s] by simp
  moreover have "dropWhile is_digit s = c # r1 \<Longrightarrow> dropWhile is_digit r1 = c2 # r3
      \<Longrightarrow> length r3 < length s" for c r1 c2 r3
    using d [of is_digit s] d [of is_digit r1] by simp
  ultimately show ?thesis using a
    by (auto simp: braces_def Let_def split: if_splits list.splits)
qed

function parse :: "string \<Rightarrow> frame list \<Rightarrow> nat \<Rightarrow> error + regex" where
  \<open>parse [] stack n =
     (case stack of [f] \<Rightarrow> Inr (close_frame f) | _ \<Rightarrow> Inl SyntaxError)\<close>
| \<open>parse (c # cs) stack n =
     (if c = CHR ''|'' then
        (case stack of
           [] \<Rightarrow> Inl SyntaxError
         | (k, alts, cur) # rest \<Rightarrow> parse cs ((k, mk_seq (rev (map fst cur)) # alts, []) # rest) n)
      else if c = CHR ''('' then
        (case cs of
           [] \<Rightarrow> Inl SyntaxError
         | q # cs1 \<Rightarrow>
             if q = CHR ''?'' then
               (case cs1 of
                  [] \<Rightarrow> Inl SyntaxError
                | k # cs2 \<Rightarrow>
                    if k = CHR '':'' then parse cs2 ((GNon, [], []) # stack) n
                    else if k = CHR ''='' then parse cs2 ((GLook True, [], []) # stack) n
                    else if k = CHR ''!'' then parse cs2 ((GLook False, [], []) # stack) n
                    else Inl Unsupported)
             else parse cs ((GCap n, [], []) # stack) (Suc n))
      else if c = CHR '')'' then
        (case stack of
           f # g # rest \<Rightarrow> parse cs (push_term (close_frame f, True) (g # rest)) n
         | _ \<Rightarrow> Inl SyntaxError)
      else if c = CHR ''*'' \<or> c = CHR ''+'' \<or> c = CHR ''?'' then
        (let mn = (if c = CHR ''+'' then 1 else 0);
             mx = (if c = CHR ''?'' then Some 1 else None)
         in case cs of
              [] \<Rightarrow> (case quantify mn mx True stack of Inl e \<Rightarrow> Inl e | Inr st \<Rightarrow> parse [] st n)
            | q # cs1 \<Rightarrow>
                if q = CHR ''?'' then
                  (case quantify mn mx False stack of Inl e \<Rightarrow> Inl e | Inr st \<Rightarrow> parse cs1 st n)
                else
                  (case quantify mn mx True stack of Inl e \<Rightarrow> Inl e | Inr st \<Rightarrow> parse cs st n))
      else if c = CHR ''{'' then
        (case braces cs of
           None \<Rightarrow> parse cs (push_term (Chr c, True) stack) n
         | Some ((mn, mx), r) \<Rightarrow>
             (case r of
                [] \<Rightarrow> (case quantify mn mx True stack of Inl e \<Rightarrow> Inl e | Inr st \<Rightarrow> parse [] st n)
              | q # r1 \<Rightarrow>
                  if q = CHR ''?'' then
                    (case quantify mn mx False stack of Inl e \<Rightarrow> Inl e | Inr st \<Rightarrow> parse r1 st n)
                  else
                    (case quantify mn mx True stack of Inl e \<Rightarrow> Inl e | Inr st \<Rightarrow> parse r st n)))
      else if c = CHR ''['' then
        (case class_body cs of
           None \<Rightarrow> Inl SyntaxError
         | Some (body, r) \<Rightarrow>
             (case char_class body of
                Inl e \<Rightarrow> Inl e
              | Inr t \<Rightarrow> parse r (push_term (t, True) stack) n))
      else if c = bsl then
        (case cs of
           [] \<Rightarrow> Inl SyntaxError
         | e # cs1 \<Rightarrow>
             (case atom_escape e of
                Inl err \<Rightarrow> Inl err
              | Inr t \<Rightarrow> parse cs1 (push_term t stack) n))
      else if c = CHR ''^'' then parse cs (push_term (Bol, False) stack) n
      else if c = CHR ''$'' then parse cs (push_term (Eol, False) stack) n
      else if c = CHR ''.'' then parse cs (push_term (Dot, True) stack) n
      else parse cs (push_term (Chr c, True) stack) n)\<close>
  by pat_completeness auto
termination
  by (relation "measure (\<lambda>(s, stack, n). length s)")
     (auto dest: class_body_length braces_length)

definition RegExp_new :: "string \<Rightarrow> error + regex" where
  "RegExp_new pattern = parse pattern [(GTop, [], [])] 1"


section \<open>Searching and replacing\<close>

record match_result =
  m_index :: nat
  m_text :: string
  m_groups :: "string option list"

fun search :: "regex \<Rightarrow> string \<Rightarrow> string \<Rightarrow> (string \<times> string \<times> mstate) option" where
  "search r pre [] =
     (case ms r (pre, [], replicate (length (groups r)) None) of
        [] \<Rightarrow> None
      | m # _ \<Rightarrow> Some (pre, [], m))"
| "search r pre (c # cs) =
     (case ms r (pre, c # cs, replicate (length (groups r)) None) of
        [] \<Rightarrow> search r (c # pre) cs
      | m # _ \<Rightarrow> Some (pre, c # cs, m))"

definition exec :: "regex \<Rightarrow> string \<Rightarrow> nat \<Rightarrow> match_result option" where
  "exec r s lastIndex =
     (if length s < lastIndex then None
      else case search r (rev (take lastIndex s)) (drop lastIndex s) of
             None \<Rightarrow> None
           | Some (pre, post, pre', post', caps) \<Rightarrow>
               Some \<lparr>m_index = length pre,
                     m_text = take (length post - length post') post,
                     m_groups = caps\<rparr>)"

text \<open>The pattern matches the text at an offset.\<close>

definition matches_at :: "regex \<Rightarrow> string \<Rightarrow> nat \<Rightarrow> bool" where
  "matches_at r s p =
     (p \<le> length s \<and> ms r (rev (take p s), drop p s, replicate (length (groups r)) None) \<noteq> [])"

definition m_end :: "match_result \<Rightarrow> nat" where
  "m_end m = m_index m + length (m_text m)"

definition group :: "match_result \<Rightarrow> nat \<Rightarrow> string option" where
  "group m k = (if 1 \<le> k \<and> k \<le> length (m_groups m) then m_groups m ! (k - 1) else None)"

definition digit_val :: "char \<Rightarrow> nat" where
  "digit_val d = code_unit d - 48"

fun substitute :: "string \<Rightarrow> string \<Rightarrow> match_result \<Rightarrow> string" where
  \<open>substitute [] s m = []\<close>
| \<open>substitute (c # t) s m =
     (if c \<noteq> CHR ''$'' then c # substitute t s m
      else case t of
        [] \<Rightarrow> [c]
      | d # t1 \<Rightarrow>
          if d = CHR ''$'' then CHR ''$'' # substitute t1 s m
          else if d = CHR ''&'' then m_text m @ substitute t1 s m
          else if d = CHR 0x60 then take (m_index m) s @ substitute t1 s m
          else if d = CHR 0x27 then drop (m_end m) s @ substitute t1 s m
          else if is_digit d then
            (case t1 of
               [] \<Rightarrow>
                 if 1 \<le> digit_val d \<and> digit_val d \<le> length (m_groups m)
                 then (case group m (digit_val d) of None \<Rightarrow> [] | Some g \<Rightarrow> g)
                 else [c, d]
             | d2 # t2 \<Rightarrow>
                 if is_digit d2 \<and> 10 * digit_val d + digit_val d2 \<le> length (m_groups m) then
                   (if 1 \<le> 10 * digit_val d + digit_val d2
                    then (case group m (10 * digit_val d + digit_val d2) of None \<Rightarrow> [] | Some g \<Rightarrow> g)
                           @ substitute t2 s m
                    else c # d # d2 # substitute t2 s m)
                 else if 1 \<le> digit_val d \<and> digit_val d \<le> length (m_groups m)
                 then (case group m (digit_val d) of None \<Rightarrow> [] | Some g \<Rightarrow> g) @ substitute t1 s m
                 else c # d # substitute t1 s m)
          else c # substitute t s m)\<close>

lemma search_bounds:
  "search r pre post = Some (pre1, post1, m) \<Longrightarrow>
     length pre \<le> length pre1 \<and> length pre1 + length post1 = length pre + length post"
  by (induction r pre post rule: search.induct) (auto split: list.splits)

lemma exec_bounds:
  assumes "exec r s i = Some m"
  shows "i \<le> m_index m" and "m_index m + length (m_text m) \<le> length s"
proof -
  from assms have le: "i \<le> length s"
    by (auto simp: exec_def split: if_splits)
  from assms obtain pre post pre' post' caps where
    s: "search r (rev (take i s)) (drop i s) = Some (pre, post, pre', post', caps)"
    and m: "m_index m = length pre" "m_text m = take (length post - length post') post"
    by (auto simp: exec_def split: if_splits option.splits)
  from search_bounds [OF s] le m show "i \<le> m_index m"
    and "m_index m + length (m_text m) \<le> length s"
    by auto
qed

section \<open>Regular expressions of the host\<close>

text \<open>
  The mutators build their patterns with \<^verbatim>\<open>new RegExp\<close> from texts that hold their
  parameters, so a pattern of a mutator is whatever the host makes of such a text. The
  constructor of the host is therefore a parameter of the mutators: for the text of a
  pattern it returns a pattern object or throws. A pattern object is taken as its
  matcher: for a text and an offset the matcher fails, or returns the number of code
  units of the match that starts at the offset with the texts of its groups, or throws
  (an engine gives up a match that outgrows its stack). The flags of the calls are
  \<^verbatim>\<open>g\<close> or none; they decide whether all matches or the first are replaced, and
  are no part of what the constructor is given here.
\<close>

type_synonym pattern = "string \<Rightarrow> nat \<Rightarrow> error + (nat \<times> string option list) option"

type_synonym host = "string \<Rightarrow> error + pattern"

text \<open>
  The search for the first match at or after \<^verbatim>\<open>lastIndex\<close>: the matcher is tried at one
  offset after the other, up to the length of the text.
\<close>

function pattern_exec :: "pattern \<Rightarrow> string \<Rightarrow> nat \<Rightarrow> error + match_result option" where
  "pattern_exec p s lastIndex =
     (if length s < lastIndex then Inr None
      else case p s lastIndex of
             Inl e \<Rightarrow> Inl e
           | Inr None \<Rightarrow> pattern_exec p s (lastIndex + 1)
           | Inr (Some (n, caps)) \<Rightarrow>
               Inr (Some \<lparr>m_index = lastIndex, m_text = take n (drop lastIndex s),
                           m_groups = caps\<rparr>))"
  by pat_completeness auto
termination
  by (relation "measure (\<lambda>(p, s, i). Suc (length s) - i)") auto

declare pattern_exec.simps [simp del]

lemma pattern_exec_bounds:
  "pattern_exec p s i = Inr (Some m) \<Longrightarrow> i \<le> m_index m \<and> m_index m \<le> length s"
proof (induction p s i rule: pattern_exec.induct)
  case (1 p s lastIndex)
  from "1.prems" have le: "\<not> length s < lastIndex"
    by (subst (asm) pattern_exec.simps) (simp split: if_splits)
  show ?case
  proof (cases "p s lastIndex")
    case (Inl e)
    with "1.prems" le show ?thesis
      by (subst (asm) pattern_exec.simps) simp
  next
    case (Inr x)
    show ?thesis
    proof (cases x)
      case None
      with Inr le "1.prems" have "pattern_exec p s (lastIndex + 1) = Inr (Some m)"
        by (subst (asm) pattern_exec.simps) simp
      from "1.IH" [OF le Inr None this] show ?thesis by simp
    next
      case (Some y)
      with Inr le "1.prems" show ?thesis
        by (subst (asm) pattern_exec.simps) (auto split: prod.splits)
    qed
  qed
qed

text \<open>
  \<^verbatim>\<open>text.replace(pattern, replacement)\<close> for a pattern with the flag \<^verbatim>\<open>g\<close>. The matches
  are collected first: after a match the search goes on from its end, and from one
  code unit further when the match is empty. Then the replacement of every match is
  built and put in its place.
\<close>

function match_all :: "pattern \<Rightarrow> string \<Rightarrow> nat \<Rightarrow> error + match_result list" where
  "match_all p s lastIndex =
     (case pattern_exec p s lastIndex of
        Inl e \<Rightarrow> Inl e
      | Inr None \<Rightarrow> Inr []
      | Inr (Some m) \<Rightarrow>
          (case match_all p s (if m_text m = [] then m_end m + 1 else m_end m) of
             Inl e \<Rightarrow> Inl e
           | Inr results \<Rightarrow> Inr (m # results)))"
  by pat_completeness auto
termination
proof (relation "measure (\<lambda>(p, s, i). Suc (length s) - i)", goal_cases)
  case 1
  then show ?case by simp
next
  case (2 p s lastIndex x m)
  then have "pattern_exec p s lastIndex = Inr (Some m)" by simp
  from pattern_exec_bounds [OF this]
  have b: "lastIndex \<le> m_index m" "m_index m \<le> length s" by simp_all
  show ?case
  proof (cases "m_text m")
    case Nil
    with b show ?thesis by (simp add: m_end_def)
  next
    case (Cons c cs)
    with b show ?thesis by (simp add: m_end_def)
  qed
qed

declare match_all.simps [simp del]

fun splice ::
  "(match_result \<Rightarrow> error + string) \<Rightarrow> string \<Rightarrow> nat \<Rightarrow> match_result list \<Rightarrow> error + string" where
  "splice f s nextSourcePosition [] = Inr (drop nextSourcePosition s)"
| "splice f s nextSourcePosition (m # results) =
     (case f m of
        Inl e \<Rightarrow> Inl e
      | Inr replacement \<Rightarrow>
          (case splice f s (m_end m) results of
             Inl e \<Rightarrow> Inl e
           | Inr rest \<Rightarrow>
               Inr (take (m_index m - nextSourcePosition) (drop nextSourcePosition s)
                      @ replacement @ rest)))"

definition replace_all :: "pattern \<Rightarrow> string \<Rightarrow> (match_result \<Rightarrow> error + string) \<Rightarrow> error + string" where
  "replace_all p s f =
     (case match_all p s 0 of
        Inl e \<Rightarrow> Inl e
      | Inr results \<Rightarrow> splice f s 0 results)"

text \<open>The same for a pattern without the flag: the first match is replaced.\<close>

definition replace_first :: "pattern \<Rightarrow> string \<Rightarrow> (match_result \<Rightarrow> error + string) \<Rightarrow> error + string" where
  "replace_first p s f =
     (case pattern_exec p s 0 of
        Inl e \<Rightarrow> Inl e
      | Inr None \<Rightarrow> Inr s
      | Inr (Some m) \<Rightarrow>
          (case f m of
             Inl e \<Rightarrow> Inl e
           | Inr replacement \<Rightarrow> Inr (take (m_index m) s @ replacement @ drop (m_end m) s)))"

text \<open>A replacement text, in which \<^verbatim>\<open>$1\<close>, \<^verbatim>\<open>$&\<close> and the like are expanded.\<close>

definition template :: "string \<Rightarrow> string \<Rightarrow> match_result \<Rightarrow> error + string" where
  "template t s m = Inr (substitute t s m)"

text \<open>
  One host, with which calls are evaluated: its constructor reads the syntax of the
  section on pattern syntax, and the matcher of a pattern takes the first way in which
  the pattern matches at the offset. It does not throw while it matches.
\<close>

definition matcher :: "regex \<Rightarrow> pattern" where
  "matcher r s i =
     Inr (case ms r (rev (take i s), drop i s, replicate (length (groups r)) None) of
            [] \<Rightarrow> None
          | (pre', post', caps) # _ \<Rightarrow> Some (length (drop i s) - length post', caps))"

definition engine :: host where
  "engine source =
     (case RegExp_new source of
        Inl e \<Rightarrow> Inl e
      | Inr r \<Rightarrow> Inr (matcher r))"

text \<open>
  A pattern matches nowhere in a text when its matcher fails at every offset of the
  text, the length of the text included. A pattern is quiet when its matcher does not
  throw.
\<close>

definition matches_nowhere :: "pattern \<Rightarrow> string \<Rightarrow> bool" where
  "matches_nowhere p s = list_all (\<lambda>i. p s i = Inr None) [0 ..< Suc (length s)]"



section \<open>Scope resolver\<close>

record DirectiveScope =
  functionName :: string
  functionCode :: string
  startIndex :: nat
  endIndex :: nat

text \<open>\<^verbatim>\<open>code[i]\<close>: the code unit at an offset, or nothing outside the text.\<close>

definition char_at :: "string \<Rightarrow> nat \<Rightarrow> char option" where
  "char_at s i = (if i < length s then Some (s ! i) else None)"

definition prev_char :: "string \<Rightarrow> nat \<Rightarrow> char option" where
  "prev_char s i = (if i = 0 then None else char_at s (i - 1))"

text \<open>
  The backward loop of \<^verbatim>\<open>findFunctionScopeAtIndex\<close>. The second argument is one more
  than the offset that the loop reads next, so the loop starts at the offset of the
  directive and ends at 0 with no opening brace found.
\<close>

fun scan_backwards :: "string \<Rightarrow> nat \<Rightarrow> int \<Rightarrow> nat option" where
  \<open>scan_backwards code 0 braceCount = None\<close>
| \<open>scan_backwards code (Suc i) braceCount =
     (let braceCount1 = (if char_at code i = Some (CHR ''}'') then braceCount + 1 else braceCount)
      in if char_at code i = Some (CHR ''{'') then
           (if braceCount1 - 1 < 0 then Some i
            else scan_backwards code i (braceCount1 - 1))
         else scan_backwards code i braceCount1)\<close>

text \<open>
  The pattern \<^verbatim>\<open>/(?:function|const)\s+([A-Za-z_$][A-Za-z0-9_$]*)\s*(?:\(|=)/\<close>.
\<close>

definition functionNameSource :: string where
  \<open>functionNameSource =
     ''(?:function|const)'' @ bsl # ''s+([A-Za-z_$][A-Za-z0-9_$]*)'' @ bsl # ''s*(?:'' @ bsl # ''(|=)''\<close>

definition functionNamePattern :: regex where
  \<open>functionNamePattern =
     Seq (Alt (mk_seq (map Chr ''function'')) (mk_seq (map Chr ''const'')))
       (Seq (Rep (Class False [Esc False Spaces]) 1 None True)
         (Seq (Group 1
                 (Seq (Class False
                         [CRange CHR ''A'' CHR ''Z'', CRange CHR ''a'' CHR ''z'',
                          CRange CHR ''_'' CHR ''_'', CRange CHR ''$'' CHR ''$''])
                    (Rep (Class False
                            [CRange CHR ''A'' CHR ''Z'', CRange CHR ''a'' CHR ''z'',
                             CRange CHR ''0'' CHR ''9'', CRange CHR ''_'' CHR ''_'',
                             CRange CHR ''$'' CHR ''$''])
                       0 None True)))
           (Seq (Rep (Class False [Esc False Spaces]) 0 None True)
              (Alt (Chr CHR ''('') (Chr CHR ''='')))))\<close>

text \<open>
  The body of the forward loop of \<^verbatim>\<open>findFunctionScopeAtIndex\<close>: the brace counter, the
  string flag and the opening quote after the code unit at an index has been read.
\<close>

definition scan_step :: "string \<Rightarrow> int \<times> bool \<times> string \<Rightarrow> nat \<Rightarrow> int \<times> bool \<times> string" where
  \<open>scan_step code st closingBraceIndex =
     (case st of (braceCount, inString, stringChar) \<Rightarrow>
        (let char = code ! closingBraceIndex;
             quote = (char = CHR 0x22 \<or> char = CHR 0x27 \<or> char = CHR 0x60);
             closes = (inString \<and> [char] = stringChar
                         \<and> prev_char code closingBraceIndex \<noteq> Some bsl);
             inString1 = (if \<not> inString \<and> quote then True
                          else if closes then False else inString);
             stringChar1 = (if \<not> inString \<and> quote then [char] else stringChar);
             braceCount1 =
               (if \<not> inString1 then
                  (if char = CHR ''{'' then braceCount + 1
                   else if char = CHR ''}'' then braceCount - 1
                   else braceCount)
                else braceCount)
         in (braceCount1, inString1, stringChar1)))\<close>

text \<open>The forward loop; it returns the final index.\<close>

function find_closing :: "string \<Rightarrow> nat \<Rightarrow> int \<times> bool \<times> string \<Rightarrow> nat" where
  \<open>find_closing code closingBraceIndex st =
     (if closingBraceIndex < length code \<and> 0 < fst st then
        find_closing code (closingBraceIndex + 1) (scan_step code st closingBraceIndex)
      else closingBraceIndex)\<close>
  by pat_completeness auto
termination
  by (relation "measure (\<lambda>(code, i, st). length code - i)") auto

declare find_closing.simps [simp del]

text \<open>
  The state of the forward loop that starts after the brace at \<open>start\<close>, once it has read
  the code units up to the offset \<open>k\<close> without stopping.
\<close>

definition scan_state :: "string \<Rightarrow> nat \<Rightarrow> nat \<Rightarrow> int \<times> bool \<times> string" where
  "scan_state code start k = foldl (scan_step code) (1, False, []) [Suc start ..< Suc k]"

text \<open>
  \<^verbatim>\<open>functionNameMatch[1]\<close> is the text of the first group. The group takes part in
  every match of the pattern (lemma \<open>functionName_group\<close> below), so the case in which
  it has no text does not arise.
\<close>

definition findFunctionScopeAtIndex :: "string \<Rightarrow> nat \<Rightarrow> DirectiveScope option" where
  "findFunctionScopeAtIndex code directiveIndex =
     (case scan_backwards code directiveIndex 0 of
        None \<Rightarrow> None
      | Some functionStartIndex \<Rightarrow>
          (case exec functionNamePattern (take functionStartIndex code) 0 of
             None \<Rightarrow> None
           | Some functionNameMatch \<Rightarrow>
               (case group functionNameMatch 1 of
                  None \<Rightarrow> None
                | Some name \<Rightarrow>
                    (let closingBraceIndex =
                           find_closing code (functionStartIndex + 1) (1, False, [])
                     in Some \<lparr>functionName = name,
                               functionCode = take (closingBraceIndex - functionStartIndex)
                                                (drop functionStartIndex code),
                               startIndex = functionStartIndex,
                               endIndex = closingBraceIndex\<rparr>))))"

definition directiveSource :: "string \<Rightarrow> string" where
  \<open>directiveSource directiveName = ''"use'' @ bsl # ''s+'' @ directiveName @ ''"''\<close>

definition getDirectiveScope :: "string \<Rightarrow> string \<Rightarrow> error + DirectiveScope option" where
  "getDirectiveScope code directiveName =
     (case RegExp_new (directiveSource directiveName) of
        Inl e \<Rightarrow> Inl e
      | Inr directivePattern \<Rightarrow>
          (case exec directivePattern code 0 of
             None \<Rightarrow> Inr None
           | Some directiveMatch \<Rightarrow> Inr (findFunctionScopeAtIndex code (m_index directiveMatch))))"

definition trim :: "string \<Rightarrow> string" where
  "trim s = rev (dropWhile is_space (rev (dropWhile is_space s)))"

definition global_scope :: "string \<Rightarrow> DirectiveScope" where
  "global_scope code =
     \<lparr>functionName = ''global'', functionCode = code, startIndex = 0, endIndex = length code\<rparr>"

text \<open>
  The loop of \<^verbatim>\<open>getAllDirectiveScopes\<close>, with the pattern's \<^verbatim>\<open>lastIndex\<close> and the
  collected scopes as its state. An occurrence of length 0 leaves \<^verbatim>\<open>lastIndex\<close>
  where it is, and the loop then never ends: that is the value \<open>None\<close>.
\<close>

partial_function (option) scopes_loop ::
  "regex \<Rightarrow> string \<Rightarrow> nat \<Rightarrow> DirectiveScope list \<Rightarrow> DirectiveScope list option" where
  "scopes_loop directivePattern code lastIndex scopes =
     (case exec directivePattern code lastIndex of
        None \<Rightarrow> Some scopes
      | Some m \<Rightarrow>
          if m_index m = 0 \<or> trim (take (m_index m) code) = [] then Some [global_scope code]
          else scopes_loop directivePattern code (m_end m)
                 (case findFunctionScopeAtIndex code (m_index m) of
                    None \<Rightarrow> scopes
                  | Some scope \<Rightarrow> scopes @ [scope]))"

declare scopes_loop.simps [code]

definition getAllDirectiveScopes :: "string \<Rightarrow> string \<Rightarrow> (error + DirectiveScope list) option" where
  "getAllDirectiveScopes code directiveName =
     (case RegExp_new (directiveSource directiveName) of
        Inl e \<Rightarrow> Some (Inl e)
      | Inr directivePattern \<Rightarrow> map_option Inr (scopes_loop directivePattern code 0 []))"


subsection \<open>Brace balance\<close>

text \<open>
  The number of closing braces of a text less the number of its opening braces: the
  signed counter of the backward scan, once it has read the text.
\<close>

definition brace_balance :: "string \<Rightarrow> int" where
  \<open>brace_balance s = int (count_list s (CHR ''}'')) - int (count_list s (CHR ''{''))\<close>

definition slice :: "string \<Rightarrow> nat \<Rightarrow> nat \<Rightarrow> string" where
  "slice s i j = take (j - i) (drop i s)"

text \<open>
  The specification counts the braces outside the string regions, and finds the regions
  by the rule that ``a quote character toggles string mode unless immediately preceded by
  an unescaped backslash''. The definitions below follow these words; they do not use the
  loops of the source.
\<close>

definition is_quote :: "char \<Rightarrow> bool" where
  "is_quote c = (c = CHR 0x22 \<or> c = CHR 0x27 \<or> c = CHR 0x60)"

text \<open>A backslash is unescaped when the code unit before it is not an unescaped backslash.\<close>

fun unescaped_backslash :: "string \<Rightarrow> nat \<Rightarrow> bool" where
  "unescaped_backslash s 0 = (char_at s 0 = Some bsl)"
| "unescaped_backslash s (Suc i) = (char_at s (Suc i) = Some bsl \<and> \<not> unescaped_backslash s i)"

text \<open>The code unit at an offset is immediately preceded by an unescaped backslash.\<close>

definition escaped :: "string \<Rightarrow> nat \<Rightarrow> bool" where
  "escaped s i = (0 < i \<and> unescaped_backslash s (i - 1))"

text \<open>
  The string mode is the quote character that opened the region, if any. A quote
  character that counts opens a region, or closes the region that it opened.
\<close>

fun toggle :: "char option \<Rightarrow> char \<Rightarrow> char option" where
  "toggle None c = Some c"
| "toggle (Some q) c = (if c = q then None else Some q)"

definition mode_step :: "string \<Rightarrow> char option \<Rightarrow> nat \<Rightarrow> char option" where
  "mode_step code mode j =
     (if is_quote (code ! j) \<and> \<not> escaped code j then toggle mode (code ! j) else mode)"

text \<open>The string mode after the offset \<open>k\<close>, for the scan that starts after \<open>start\<close>.\<close>

definition string_mode :: "string \<Rightarrow> nat \<Rightarrow> nat \<Rightarrow> char option" where
  "string_mode code start k = foldl (mode_step code) None [Suc start ..< Suc k]"

text \<open>
  The number of offsets after \<open>start\<close> and up to \<open>k\<close> that hold the code unit \<open>c\<close> outside
  the string regions, and the depth of braces: 1 for the brace at \<open>start\<close>, one more for
  every opening brace and one less for every closing brace outside the string regions.
\<close>

definition counted :: "string \<Rightarrow> nat \<Rightarrow> char \<Rightarrow> nat \<Rightarrow> nat" where
  "counted code start c k =
     length (filter (\<lambda>j. code ! j = c \<and> string_mode code start j = None) [Suc start ..< Suc k])"

definition depth :: "string \<Rightarrow> nat \<Rightarrow> nat \<Rightarrow> int" where
  \<open>depth code start k =
     1 + int (counted code start (CHR ''{'') k) - int (counted code start (CHR ''}'') k)\<close>

text \<open>
  The code unit at \<open>k\<close> balances the brace at \<open>start\<close>: the depth is 0 after it, for the
  first time.
\<close>

definition balancing :: "string \<Rightarrow> nat \<Rightarrow> nat \<Rightarrow> bool" where
  "balancing code start k =
     (start < k \<and> k < length code \<and> depth code start k = 0
      \<and> list_all (\<lambda>j. 0 < depth code start j) [Suc start ..< k])"

text \<open>
  The forward loop of the source tests the code unit before a quote character where the
  specification asks for an unescaped backslash. The two tests part at a quote character
  in two cases: outside a string region the loop opens a region also after an unescaped
  backslash; inside a region the loop does not close the region after a backslash that
  is itself escaped, as in \<^verbatim>\<open>'\\'\<close>.
\<close>

definition escape_test_differs :: "string \<Rightarrow> nat \<Rightarrow> nat \<Rightarrow> bool" where
  "escape_test_differs code start j =
     (is_quote (code ! j)
      \<and> (case string_mode code start (j - 1) of
            None \<Rightarrow> escaped code j
          | Some q \<Rightarrow> code ! j = q \<and> prev_char code j = Some bsl \<and> \<not> escaped code j))"


section \<open>Text mutators\<close>

text \<open>
  Every mutator that calls \<^verbatim>\<open>new RegExp\<close> has the constructor of the host as its first
  parameter, named \<open>RegExp\<close>. First \<^verbatim>\<open>code.replace(pattern, replacement)\<close> for a pattern
  with the flag \<^verbatim>\<open>g\<close> and a replacement text.
\<close>

definition replace_template :: "pattern \<Rightarrow> string \<Rightarrow> string \<Rightarrow> error + string" where
  "replace_template r code t = replace_all r code (template t code)"

text \<open>
  \<^verbatim>\<open>injectFunctionCode\<close>, with its two pattern literals
  \<^verbatim>\<open>/(\bfunction\s+\w+\s*\([^)]*\)\s*\{)/g\<close> and
  \<^verbatim>\<open>/(\bconst\s+\w+\s*=\s*(?:async\s*)?\([^)]*\)\s*=>\s*\{)/g\<close>.
\<close>

definition functionDeclSource :: string where
  \<open>functionDeclSource =
     ''('' @ bsl # ''bfunction'' @ bsl # ''s+'' @ bsl # ''w+'' @ bsl # ''s*'' @ bsl # ''([^)]*''
       @ bsl # '')'' @ bsl # ''s*'' @ bsl # ''{)''\<close>

definition arrowFunctionSource :: string where
  \<open>arrowFunctionSource =
     ''('' @ bsl # ''bconst'' @ bsl # ''s+'' @ bsl # ''w+'' @ bsl # ''s*='' @ bsl # ''s*(?:async''
       @ bsl # ''s*)?'' @ bsl # ''([^)]*'' @ bsl # '')'' @ bsl # ''s*=>'' @ bsl # ''s*'' @ bsl # ''{)''\<close>

definition functionDeclPattern :: regex where
  \<open>functionDeclPattern =
     Group 1
       (mk_seq ([WordB True] @ map Chr ''function''
          @ [Rep (Class False [Esc False Spaces]) 1 None True,
             Rep (Class False [Esc False WordChars]) 1 None True,
             Rep (Class False [Esc False Spaces]) 0 None True,
             Chr CHR ''('',
             Rep (Class True [CRange CHR '')'' CHR '')'']) 0 None True,
             Chr CHR '')'',
             Rep (Class False [Esc False Spaces]) 0 None True,
             Chr CHR ''{'']))\<close>

definition arrowFunctionPattern :: regex where
  \<open>arrowFunctionPattern =
     Group 1
       (mk_seq ([WordB True] @ map Chr ''const''
          @ [Rep (Class False [Esc False Spaces]) 1 None True,
             Rep (Class False [Esc False WordChars]) 1 None True,
             Rep (Class False [Esc False Spaces]) 0 None True,
             Chr CHR ''='',
             Rep (Class False [Esc False Spaces]) 0 None True,
             Rep (mk_seq (map Chr ''async'' @ [Rep (Class False [Esc False Spaces]) 0 None True]))
               0 (Some 1) True,
             Chr CHR ''('',
             Rep (Class True [CRange CHR '')'' CHR '')'']) 0 None True,
             Chr CHR '')'',
             Rep (Class False [Esc False Spaces]) 0 None True,
             Chr CHR ''='', Chr CHR ''>'',
             Rep (Class False [Esc False Spaces]) 0 None True,
             Chr CHR ''{'']))\<close>


definition replaceComponentSource :: "string \<Rightarrow> string" where
  \<open>replaceComponentSource componentName =
     ''<'' @ componentName @ ''('' @ bsl # ''s[^>]*)?>([^<]*(?:<(?!/?'' @ componentName @ bsl # ''b)[^<]*)*(?:<''
       @ componentName @ ''[^>]*>.*?</'' @ bsl # ''s*'' @ componentName @ bsl # ''s*>)?[^<]*)(?:</'' @ bsl # ''s*''
       @ componentName @ bsl # ''s*>)?''\<close>

definition replaceComponent :: "host \<Rightarrow> string \<Rightarrow> string \<Rightarrow> string \<Rightarrow> error + string" where
  \<open>replaceComponent RegExp code componentName replacementComponent =
     (case RegExp (replaceComponentSource componentName) of
        Inl e \<Rightarrow> Inl e
      | Inr pattern \<Rightarrow>
          replace_template pattern code
            (''<'' @ replacementComponent @ ''$1>$2</'' @ replacementComponent @ ''>''))\<close>

definition selfClosingSource :: "string \<Rightarrow> string" where
  \<open>selfClosingSource componentName =
     ''<'' @ componentName @ bsl # ''s*(?:[^>]*?)'' @ bsl # ''s*/>''\<close>

definition openCloseSource :: "string \<Rightarrow> string" where
  \<open>openCloseSource componentName =
     ''<'' @ componentName @ ''(?:'' @ bsl # ''s[^>]*)?>([^<]*(?:<(?!/?'' @ componentName @ bsl # ''b)[^<]*)*)</''
       @ bsl # ''s*'' @ componentName @ bsl # ''s*>''\<close>

definition removeComponent :: "host \<Rightarrow> string \<Rightarrow> string \<Rightarrow> error + string" where
  \<open>removeComponent RegExp code componentName =
     (case RegExp (selfClosingSource componentName) of
        Inl e \<Rightarrow> Inl e
      | Inr selfClosingPattern \<Rightarrow>
          (case RegExp (openCloseSource componentName) of
             Inl e \<Rightarrow> Inl e
           | Inr openClosePattern \<Rightarrow>
               (case replace_template selfClosingPattern code [] of
                  Inl e \<Rightarrow> Inl e
                | Inr result \<Rightarrow> replace_template openClosePattern result ''$1'')))\<close>







definition addPropSource :: "string \<Rightarrow> string" where
  \<open>addPropSource componentName =
     ''(<'' @ componentName @ ''(?:'' @ bsl # ''s[^>]*)?)(['' @ bsl # ''s/>])''\<close>

definition addProp :: "host \<Rightarrow> string \<Rightarrow> string \<Rightarrow> string \<Rightarrow> string \<Rightarrow> error + string" where
  \<open>addProp RegExp code componentName propName propValue =
     (case RegExp (addPropSource componentName) of
        Inl e \<Rightarrow> Inl e
      | Inr pattern \<Rightarrow>
          replace_template pattern code (''$1 '' @ propName @ ''="'' @ propValue @ ''"$2''))\<close>

definition propSource :: "string \<Rightarrow> string" where
  \<open>propSource propName =
     bsl # ''s'' @ propName @ ''(?:=(?:"[^"]*"|'' @ [CHR 0x27] @ ''[^'' @ [CHR 0x27] @ '']*''
       @ [CHR 0x27] @ ''))?''\<close>

definition removePropSource :: "string \<Rightarrow> string \<Rightarrow> string" where
  \<open>removePropSource componentName propName =
     ''<'' @ componentName @ ''[^>]*'' @ propSource propName @ ''[^>]*>''\<close>

definition removeProp :: "host \<Rightarrow> string \<Rightarrow> string \<Rightarrow> string \<Rightarrow> error + string" where
  \<open>removeProp RegExp code componentName propName =
     (case RegExp (removePropSource componentName propName) of
        Inl e \<Rightarrow> Inl e
      | Inr pattern \<Rightarrow>
          replace_all pattern code
            (\<lambda>m. case RegExp (propSource propName) of
                   Inl e \<Rightarrow> Inl e
                 | Inr inner \<Rightarrow> replace_first inner (m_text m) (template [] (m_text m))))\<close>

definition replaceText :: "host \<Rightarrow> string \<Rightarrow> string \<Rightarrow> string \<Rightarrow> error + string" where
  \<open>replaceText RegExp code oldText newText =
     (case RegExp oldText of
        Inl e \<Rightarrow> Inl e
      | Inr pattern \<Rightarrow> replace_template pattern code newText)\<close>








text \<open>
  \<^verbatim>\<open>code.includes(importStatement)\<close>: some offset of the text starts a copy of the
  searched string. The empty string is found in every text.
\<close>

fun str_includes :: "string \<Rightarrow> string \<Rightarrow> bool" where
  "str_includes [] st = (st = [])"
| "str_includes (c # cs) st = (prefix st (c # cs) \<or> str_includes cs st)"

definition addImport :: "string \<Rightarrow> string \<Rightarrow> string" where
  "addImport code importStatement =
     (if str_includes code importStatement then code
      else importStatement @ [CHR 0x0A] @ code)"

definition injectComment :: "string \<Rightarrow> string \<Rightarrow> string" where
  "injectComment baseCode comment = ''// '' @ comment @ [CHR 0x0A] @ baseCode"

definition injectImport :: "string \<Rightarrow> string \<Rightarrow> string" where
  "injectImport baseCode importStatement = importStatement @ [CHR 0x0A] @ baseCode"


section \<open>Directive registry\<close>

record DirectiveHandler =
  name :: string
  handler :: "string \<Rightarrow> string option"

text \<open>
  The registry holds one object, created by \<^verbatim>\<open>{}\<close>, and uses it as a dictionary. Such an
  object has the properties stored in it and inherits those of its prototype, which
  is \<^verbatim>\<open>Object.prototype\<close> until a value is stored under the key \<^verbatim>\<open>__proto__\<close>: that
  store replaces the prototype by the stored object and adds no property.
\<close>

record registry =
  own :: "string \<rightharpoonup> DirectiveHandler"
  proto :: "DirectiveHandler option"

definition object_prototype_keys :: "string list" where
  "object_prototype_keys =
     [''constructor'', ''__defineGetter__'', ''__defineSetter__'', ''hasOwnProperty'',
      ''__lookupGetter__'', ''__lookupSetter__'', ''isPrototypeOf'', ''propertyIsEnumerable'',
      ''toString'', ''valueOf'', ''__proto__'', ''toLocaleString'']"

datatype js_value =
    Undefined
  | HandlerObject DirectiveHandler
  | StringValue string
  | FunctionValue "string \<Rightarrow> string option"
  | Builtin string

definition new_registry :: registry where
  "new_registry = \<lparr>own = Map.empty, proto = None\<rparr>"

definition register :: "DirectiveHandler \<Rightarrow> registry \<Rightarrow> registry" where
  "register h reg =
     (if name h = ''__proto__'' then reg\<lparr>proto := Some h\<rparr>
      else reg\<lparr>own := (own reg)(name h \<mapsto> h)\<rparr>)"

definition getDirective :: "string \<Rightarrow> registry \<Rightarrow> js_value" where
  "getDirective n reg =
     (if n = ''__proto__'' then
        (case proto reg of None \<Rightarrow> Builtin n | Some h \<Rightarrow> HandlerObject h)
      else case own reg n of
        Some h \<Rightarrow> HandlerObject h
      | None \<Rightarrow>
          (case proto reg of
             Some h \<Rightarrow>
               if n = ''name'' then StringValue (name h)
               else if n = ''handler'' then FunctionValue (handler h)
               else if n \<in> set object_prototype_keys then Builtin n
               else Undefined
           | None \<Rightarrow> if n \<in> set object_prototype_keys then Builtin n else Undefined))"

definition isDirective :: "string \<Rightarrow> registry \<Rightarrow> bool" where
  "isDirective n reg =
     (own reg n \<noteq> None
      \<or> (proto reg \<noteq> None \<and> (n = ''name'' \<or> n = ''handler''))
      \<or> n \<in> set object_prototype_keys)"

definition clear :: "registry \<Rightarrow> registry" where
  "clear reg = new_registry"


section \<open>Properties of \<^verbatim>\<open>addImport\<close>\<close>

lemma str_includes_iff: "str_includes code st \<longleftrightarrow> (\<exists>ps ss. code = ps @ st @ ss)"
proof (induction code)
  case Nil
  then show ?case by auto
next
  case (Cons c cs)
  show ?case
  proof
    assume "str_includes (c # cs) st"
    then consider "prefix st (c # cs)" | "str_includes cs st" by auto
    then show "\<exists>ps ss. c # cs = ps @ st @ ss"
    proof cases
      case 1
      then obtain ss where "c # cs = st @ ss" by (auto simp: prefix_def)
      then have "c # cs = [] @ st @ ss" by simp
      then show ?thesis by blast
    next
      case 2
      with Cons.IH obtain ps ss where "cs = ps @ st @ ss" by blast
      then have "c # cs = (c # ps) @ st @ ss" by simp
      then show ?thesis by blast
    qed
  next
    assume "\<exists>ps ss. c # cs = ps @ st @ ss"
    then obtain ps ss where eq: "c # cs = ps @ st @ ss" by blast
    show "str_includes (c # cs) st"
    proof (cases ps)
      case Nil
      with eq have "prefix st (c # cs)" by (simp add: prefix_def)
      then show ?thesis by simp
    next
      case (Cons p ps')
      with eq have "cs = ps' @ st @ ss" by simp
      with Cons.IH have "str_includes cs st" by blast
      then show ?thesis by simp
    qed
  qed
qed

lemma str_includes_prepended: "str_includes (st @ rest) st"
  by (simp add: str_includes_iff) (metis append_Nil)

lemma str_includes_inside: "str_includes (ps @ st @ ss) st"
  by (auto simp: str_includes_iff)

text \<open>
  Claim C7. \<^verbatim>\<open>addImport\<close> is idempotent: applying it twice with the same statement gives
  the result of applying it once; and it returns the text as it is when the statement
  already occurs in the text, that is, when the text is \<open>ps @ st @ ss\<close> for some \<open>ps\<close>
  and \<open>ss\<close>.
\<close>

theorem addImport_idempotent:
  "addImport (addImport code st) st = addImport code st
   \<and> addImport (ps @ st @ ss) st = ps @ st @ ss"
  by (simp add: addImport_def str_includes_prepended str_includes_inside)

text \<open>
  Claim C9. The duplicate check of \<^verbatim>\<open>addImport\<close> is containment of the statement as a
  contiguous part of the text, wherever it stands: the text is returned unchanged exactly
  when it contains the statement, and has the statement and a line feed put in front
  otherwise. The second part is a text in which the statement stands in a comment, not in
  an import line.
\<close>

theorem addImport_containment:
  \<open>addImport code st =
     (if \<exists>ps ss. code = ps @ st @ ss then code else st @ [CHR 0x0A] @ code)
   \<and> addImport ''// import x from "y"'' ''import x from "y"'' = ''// import x from "y"''\<close>
proof
  show "addImport code st =
     (if \<exists>ps ss. code = ps @ st @ ss then code else st @ [CHR 0x0A] @ code)"
    by (simp add: addImport_def str_includes_iff)
  show \<open>addImport ''// import x from "y"'' ''import x from "y"'' = ''// import x from "y"''\<close>
    by (simp add: addImport_def)
qed

section \<open>Properties of the registry\<close>

lemma register_last_write_wins:
  "name a' = name a \<Longrightarrow> getDirective (name a) (register a' (register a reg)) = HandlerObject a'"
  by (simp add: getDirective_def register_def)

text \<open>
  Claim C8. After \<^verbatim>\<open>clear()\<close>, \<^verbatim>\<open>isDirective\<close> should be false for every name registered
  before. It is true for the name \<^verbatim>\<open>toString\<close>: \<^verbatim>\<open>name in this.directives\<close> also finds the
  properties that the empty object inherits.
\<close>

theorem isDirective_after_clear_toString:
  "isDirective ''toString'' (clear (register \<lparr>name = ''toString'', handler = h\<rparr> new_registry)) = True"
  by (simp add: isDirective_def clear_def new_registry_def object_prototype_keys_def)

theorem isDirective_after_clear_toString_witness:
  "isDirective ''toString''
     (clear (register \<lparr>name = ''toString'', handler = (\<lambda>code. Some code)\<rparr> new_registry)) = True"
  using isDirective_after_clear_toString [of "\<lambda>code. Some code"] by simp

section \<open>Properties of searching and replacing\<close>

lemma functionDeclSource_compiles: "RegExp_new functionDeclSource = Inr functionDeclPattern"
  by code_simp

lemma arrowFunctionSource_compiles: "RegExp_new arrowFunctionSource = Inr arrowFunctionPattern"
  by code_simp

lemma functionNameSource_compiles: "RegExp_new functionNameSource = Inr functionNamePattern"
  by code_simp


lemma search_finds:
  "ms r (rev ps @ pre, post, replicate (length (groups r)) None) \<noteq> [] \<Longrightarrow>
     \<exists>pre1 post1 m. search r pre (ps @ post) = Some (pre1, post1, m)
        \<and> length pre1 \<le> length pre + length ps"
proof (induction ps arbitrary: pre)
  case Nil
  then show ?case
    by (cases post) (auto split: list.splits)
next
  case (Cons a ps)
  show ?case
  proof (cases "ms r (pre, a # ps @ post, replicate (length (groups r)) None)")
    case Nil
    from Cons.prems have "ms r (rev ps @ a # pre, post, replicate (length (groups r)) None) \<noteq> []"
      by simp
    from Cons.IH [OF this] Nil show ?thesis
      by auto
  next
    case (Cons m ms')
    then show ?thesis by (cases m) simp
  qed
qed

lemma exec_finds:
  assumes "matches_at r s p"
  shows "\<exists>m. exec r s 0 = Some m \<and> m_index m \<le> p"
proof -
  from assms have "ms r (rev (take p s) @ [], drop p s, replicate (length (groups r)) None) \<noteq> []"
    by (simp add: matches_at_def)
  from search_finds [OF this] obtain pre1 post1 m where
    s: "search r [] (take p s @ drop p s) = Some (pre1, post1, m)" and
    l: "length pre1 \<le> length (take p s)"
    by auto
  obtain pre' post' caps where m: "m = (pre', post', caps)" by (cases m)
  from s m l show ?thesis
    by (auto simp: exec_def)
qed

lemma trim_spaces:
  assumes "\<forall>c \<in> set s. is_space c"
  shows "trim s = []"
proof -
  from assms have d: "dropWhile is_space s = []" by (induction s) auto
  show ?thesis unfolding trim_def d by simp
qed


lemma search_at:
  assumes "i \<le> length s"
  shows "search r (rev (take i s)) (drop i s) =
     (case ms r (rev (take i s), drop i s, replicate (length (groups r)) None) of
        [] \<Rightarrow> if i < length s then search r (rev (take (Suc i) s)) (drop (Suc i) s) else None
      | m # _ \<Rightarrow> Some (rev (take i s), drop i s, m))"
proof (cases "drop i s")
  case Nil
  with assms have "i = length s" by simp
  with Nil show ?thesis by (simp split: list.splits)
next
  case (Cons c cs)
  then have i: "i < length s" by (cases "i < length s") simp_all
  from Cons i have c: "c = s ! i" "cs = drop (Suc i) s"
    by (simp_all add: Cons_nth_drop_Suc [symmetric])
  from i have "rev (take (Suc i) s) = s ! i # rev (take i s)"
    by (simp add: take_Suc_conv_app_nth)
  with Cons c i show ?thesis
    by (simp split: list.splits)
qed

text \<open>The search with the matcher of a pattern is the search of the scope resolver.\<close>

lemma pattern_exec_matcher: "pattern_exec (matcher r) s i = Inr (exec r s i)"
proof (induction "matcher r" s i rule: pattern_exec.induct)
  case (1 s i)
  show ?case
  proof (cases "length s < i")
    case True
    then show ?thesis
      by (subst pattern_exec.simps) (simp add: exec_def)
  next
    case False
    then have le: "i \<le> length s" by simp
    show ?thesis
    proof (cases "ms r (rev (take i s), drop i s, replicate (length (groups r)) None)")
      case Nil
      then have m: "matcher r s i = Inr None" by (simp add: matcher_def)
      from "1.hyps" [OF False m refl]
      have IH: "pattern_exec (matcher r) s (i + 1) = Inr (exec r s (i + 1))" .
      have "exec r s i = exec r s (i + 1)"
      proof (cases "i < length s")
        case True
        with Nil le show ?thesis
          by (simp add: exec_def search_at [OF le])
      next
        case False
        with Nil le show ?thesis
          by (simp add: exec_def search_at [OF le])
      qed
      with IH False m show ?thesis
        by (subst pattern_exec.simps) simp
    next
      case (Cons x xs)
      obtain pre' post' caps where x: "x = (pre', post', caps)" by (cases x)
      with Cons have m: "matcher r s i = Inr (Some (length (drop i s) - length post', caps))"
        by (simp add: matcher_def)
      from Cons x le have "exec r s i = Some \<lparr>m_index = i,
          m_text = take (length (drop i s) - length post') (drop i s), m_groups = caps\<rparr>"
        by (simp add: exec_def search_at [OF le])
      with False m show ?thesis
        by (subst pattern_exec.simps) simp
    qed
  qed
qed



lemma matches_nowhere_iff: "matches_nowhere p s \<longleftrightarrow> (\<forall>j \<le> length s. p s j = Inr None)"
proof -
  have "j \<in> set [0 ..< Suc (length s)] \<longleftrightarrow> j \<le> length s" for j
    by (simp only: set_upt atLeastLessThan_iff less_Suc_eq_le) simp
  then show ?thesis
    unfolding matches_nowhere_def list_all_iff by blast
qed


lemma match_all_none: "pattern_exec p s i = Inr None \<Longrightarrow> match_all p s i = Inr []"
  by (subst match_all.simps) simp










text \<open>One match that is not empty, and none after it.\<close>

lemma replace_all_once:
  assumes "exec r s 0 = Some m" and "m_text m \<noteq> []" and "f m = Inr t"
    and "exec r s (m_end m) = None"
  shows "replace_all (matcher r) s f = Inr (take (m_index m) s @ t @ drop (m_end m) s)"
proof -
  from assms(4) have "match_all (matcher r) s (m_end m) = Inr []"
    by (simp add: match_all_none pattern_exec_matcher)
  with assms(1,2) have "match_all (matcher r) s 0 = Inr [m]"
    by (subst match_all.simps) (simp add: pattern_exec_matcher)
  with assms(3) show ?thesis
    by (simp add: replace_all_def)
qed

lemma search_sound:
  "search r pre post = Some (pre1, post1, m) \<Longrightarrow>
     ms r (pre1, post1, replicate (length (groups r)) None) \<noteq> []
       \<and> rev pre1 @ post1 = rev pre @ post"
  by (induction r pre post rule: search.induct) (auto split: list.splits)

lemma exec_sound:
  assumes "exec r s 0 = Some m"
  shows "matches_at r s (m_index m)"
proof -
  from assms obtain pre post st where
    s: "search r [] s = Some (pre, post, st)" and m: "m_index m = length pre"
    by (auto simp: exec_def split: option.splits)
  from search_sound [OF s] have ne: "ms r (pre, post, replicate (length (groups r)) None) \<noteq> []"
    and eq: "rev pre @ post = s" by simp_all
  from eq have "take (length pre) s = rev pre" "drop (length pre) s = post"
    by (metis append_eq_conv_conj length_rev)+
  with ne m eq show ?thesis
    by (auto simp: matches_at_def)
qed

section \<open>Properties of the scope resolver\<close>

lemma brace_balance_snoc:
  \<open>brace_balance (s @ [c]) =
     brace_balance s + (if c = CHR ''}'' then 1 else if c = CHR ''{'' then - 1 else 0)\<close>
  by (simp add: brace_balance_def)

lemma brace_balance_Nil: "brace_balance [] = 0"
  by (simp add: brace_balance_def)

lemma slice_Suc: "j \<le> k \<Longrightarrow> k < length s \<Longrightarrow> slice s j (Suc k) = slice s j k @ [s ! k]"
  by (simp add: slice_def Suc_diff_le take_Suc_conv_app_nth)

lemma slice_empty: "slice s k k = []"
  by (simp add: slice_def)

lemma scan_backwards_None_iff:
  "k \<le> length code \<Longrightarrow> 0 \<le> b \<Longrightarrow>
     scan_backwards code k b = None \<longleftrightarrow> (\<forall>j<k. 0 \<le> b + brace_balance (slice code j k))"
proof (induction k arbitrary: b)
  case 0
  then show ?case by simp
next
  case (Suc k)
  let ?c = "code ! k"
  let ?w = "if ?c = CHR ''}'' then 1 else if ?c = CHR ''{'' then - 1 else (0::int)"
  from Suc.prems have k: "k < length code" by simp
  have sl: "b + brace_balance (slice code j (Suc k)) = (b + ?w) + brace_balance (slice code j k)"
    if "j \<le> k" for j
    using k that by (simp add: slice_Suc brace_balance_snoc)
  have all: "(\<forall>j<Suc k. P j) \<longleftrightarrow> P k \<and> (\<forall>j<k. P j)" for P
    using less_Suc_eq by auto
  have at_k: "b + brace_balance (slice code k (Suc k)) = b + ?w"
    using sl [of k] by (simp only: slice_empty brace_balance_Nil order_refl add_0_right)
  have below: "(\<forall>j<k. 0 \<le> b + brace_balance (slice code j (Suc k))) \<longleftrightarrow>
      (\<forall>j<k. 0 \<le> (b + ?w) + brace_balance (slice code j k))"
  proof (intro iffI allI impI)
    fix j assume "\<forall>j<k. 0 \<le> b + brace_balance (slice code j (Suc k))" "j < k"
    then have "0 \<le> b + brace_balance (slice code j (Suc k))" by blast
    with sl [of j] \<open>j < k\<close> show "0 \<le> (b + ?w) + brace_balance (slice code j k)"
      by (simp only: less_imp_le)
  next
    fix j assume "\<forall>j<k. 0 \<le> (b + ?w) + brace_balance (slice code j k)" "j < k"
    then have "0 \<le> (b + ?w) + brace_balance (slice code j k)" by blast
    with sl [of j] \<open>j < k\<close> show "0 \<le> b + brace_balance (slice code j (Suc k))"
      by (simp only: less_imp_le)
  qed
  have rhs: "(\<forall>j<Suc k. 0 \<le> b + brace_balance (slice code j (Suc k))) \<longleftrightarrow>
      0 \<le> b + ?w \<and> (\<forall>j<k. 0 \<le> (b + ?w) + brace_balance (slice code j k))"
    unfolding all at_k below ..
  show ?case
  proof (cases "0 \<le> b + ?w")
    case True
    have "scan_backwards code (Suc k) b = scan_backwards code k (b + ?w)"
      using True k Suc.prems(2) by (auto simp: char_at_def Let_def)
    moreover from Suc.IH [OF _ True] k
    have "scan_backwards code k (b + ?w) = None \<longleftrightarrow>
            (\<forall>j<k. 0 \<le> (b + ?w) + brace_balance (slice code j k))" by simp
    ultimately show ?thesis
      unfolding rhs using True by simp
  next
    case False
    with Suc.prems(2) have c: "?c = CHR ''{''"
      by (auto split: if_splits)
    with False k have "scan_backwards code (Suc k) b = Some k"
      by (simp add: char_at_def)
    with False show ?thesis
      unfolding rhs by simp
  qed
qed


lemma scan_backwards_Some:
  "scan_backwards code k b = Some s \<Longrightarrow> s < k \<and> char_at code s = Some (CHR ''{'')"
proof (induction k arbitrary: b)
  case 0
  then show ?case by simp
next
  case (Suc k)
  then show ?case
    by (fastforce simp: Let_def split: if_splits)
qed

lemma scan_state_start: "scan_state code s s = (1, False, [])"
  by (simp add: scan_state_def)

lemma scan_state_Suc:
  "s \<le> k \<Longrightarrow> scan_state code s (Suc k) = scan_step code (scan_state code s k) (Suc k)"
  by (simp add: scan_state_def)

lemma scan_step_depth: "fst st - 1 \<le> fst (scan_step code st i)"
  by (cases st) (simp add: scan_step_def Let_def)

lemma scan_step_zero:
  assumes "0 < fst st" and "fst (scan_step code st i) = 0"
  shows "code ! i = CHR ''}''"
  using assms by (cases st) (auto simp: scan_step_def Let_def split: if_splits)

lemma find_closing_spec:
  assumes "s < i" and "i \<le> length code" and "st = scan_state code s (i - 1)"
    and "\<forall>j. s \<le> j \<and> j < i - 1 \<longrightarrow> 0 < fst (scan_state code s j)"
  shows "i \<le> find_closing code i st \<and> find_closing code i st \<le> length code
     \<and> (\<forall>j. s \<le> j \<and> j < find_closing code i st - 1 \<longrightarrow> 0 < fst (scan_state code s j))
     \<and> (find_closing code i st = length code \<or> fst (scan_state code s (find_closing code i st - 1)) \<le> 0)"
  using assms
proof (induction code i st rule: find_closing.induct)
  case (1 code i st)
  show ?case
  proof (cases "i < length code \<and> 0 < fst st")
    case True
    from 1(2) obtain i' where i': "i = Suc i'" "s \<le> i'"
      by (cases i) auto
    have st': "scan_step code st i = scan_state code s (i + 1 - 1)"
      using i' 1(4) by (simp add: scan_state_Suc)
    have pos: "\<forall>j. s \<le> j \<and> j < i + 1 - 1 \<longrightarrow> 0 < fst (scan_state code s j)"
    proof (intro allI impI)
      fix j assume j: "s \<le> j \<and> j < i + 1 - 1"
      show "0 < fst (scan_state code s j)"
      proof (cases "j < i - 1")
        case True
        with j 1(5) show ?thesis by blast
      next
        case False
        with j i' have "j = i - 1" by simp
        with True 1(4) show ?thesis by simp
      qed
    qed
    from True 1(2) have "s < i + 1" "i + 1 \<le> length code" by simp_all
    from "1.IH" [OF True this st' pos]
    have "i + 1 \<le> find_closing code (i + 1) (scan_step code st i)
        \<and> find_closing code (i + 1) (scan_step code st i) \<le> length code
        \<and> (\<forall>j. s \<le> j \<and> j < find_closing code (i + 1) (scan_step code st i) - 1
               \<longrightarrow> 0 < fst (scan_state code s j))
        \<and> (find_closing code (i + 1) (scan_step code st i) = length code
            \<or> fst (scan_state code s (find_closing code (i + 1) (scan_step code st i) - 1)) \<le> 0)" .
    moreover from True
    have "find_closing code i st = find_closing code (i + 1) (scan_step code st i)"
      by (subst find_closing.simps) simp
    ultimately show ?thesis by simp
  next
    case False
    then have e: "find_closing code i st = i"
      by (subst find_closing.simps) auto
    from False 1(3) have "i = length code \<or> fst st \<le> 0" by auto
    with 1(4) have "i = length code \<or> fst (scan_state code s (i - 1)) \<le> 0"
      by simp
    with e 1(3,5) show ?thesis by simp
  qed
qed

lemma scan_state_depth: "s \<le> k \<Longrightarrow> fst (scan_state code s k) - 1 \<le> fst (scan_state code s (Suc k))"
  by (simp add: scan_state_Suc scan_step_depth)

text \<open>
  Where the forward loop stops: one past the first offset after which its counter is 0,
  and at the end of the text when it stops nowhere before.
\<close>

lemma find_closing_end:
  assumes "s < length code"
  defines "e \<equiv> find_closing code (s + 1) (1, False, [])"
  shows "s < e \<and> e \<le> length code"
    and "s < k \<Longrightarrow> k < length code \<Longrightarrow> fst (scan_state code s k) = 0 \<Longrightarrow>
         (\<And>j. s < j \<Longrightarrow> j < k \<Longrightarrow> 0 < fst (scan_state code s j)) \<Longrightarrow>
         e = k + 1 \<and> char_at code k = Some (CHR ''}'')"
    and "e \<noteq> length code \<Longrightarrow>
         s < e - 1 \<and> e - 1 < length code \<and> fst (scan_state code s (e - 1)) = 0
         \<and> (\<forall>j. s < j \<and> j < e - 1 \<longrightarrow> 0 < fst (scan_state code s j))"
proof -
  have spec: "s + 1 \<le> e \<and> e \<le> length code
     \<and> (\<forall>j. s \<le> j \<and> j < e - 1 \<longrightarrow> 0 < fst (scan_state code s j))
     \<and> (e = length code \<or> fst (scan_state code s (e - 1)) \<le> 0)"
    unfolding e_def
    by (rule find_closing_spec [of s]) (use assms(1) in \<open>simp_all add: scan_state_start\<close>)
  then show bounds: "s < e \<and> e \<le> length code" by simp
  from spec have pos: "\<And>j. s \<le> j \<Longrightarrow> j < e - 1 \<Longrightarrow> 0 < fst (scan_state code s j)" by blast
  from spec have stop: "e = length code \<or> fst (scan_state code s (e - 1)) \<le> 0" by blast
  {
    assume k: "s < k" "k < length code" "fst (scan_state code s k) = 0"
      and before: "\<And>j. s < j \<Longrightarrow> j < k \<Longrightarrow> 0 < fst (scan_state code s j)"
    have "\<not> k < e - 1"
      using pos [of k] k by auto
    moreover have "\<not> e - 1 < k"
    proof
      assume lt: "e - 1 < k"
      with k bounds have "e \<noteq> length code" by simp
      with stop have le0: "fst (scan_state code s (e - 1)) \<le> 0" by simp
      have "s < e - 1"
      proof (rule ccontr)
        assume "\<not> s < e - 1"
        with bounds have "e - 1 = s" by arith
        with le0 show False by (simp add: scan_state_start)
      qed
      from before [OF this lt] le0 show False by simp
    qed
    ultimately have ek: "e = k + 1" using bounds by arith
    from k obtain k' where k': "k = Suc k'" "s \<le> k'" by (cases k) auto
    have "0 < fst (scan_state code s k')"
    proof (cases "s = k'")
      case True
      then show ?thesis by (simp add: scan_state_start)
    next
      case False
      with k' before [of k'] show ?thesis by simp
    qed
    with k(3) k' have "code ! k = CHR ''}''"
      using scan_step_zero [of "scan_state code s k'" code k]
      by (simp add: scan_state_Suc)
    with ek k show "e = k + 1 \<and> char_at code k = Some (CHR ''}'')"
      by (simp add: char_at_def)
  }
  {
    assume ne: "e \<noteq> length code"
    with stop have le0: "fst (scan_state code s (e - 1)) \<le> 0" by simp
    have s1: "s < e - 1"
    proof (rule ccontr)
      assume "\<not> s < e - 1"
      with bounds have "e - 1 = s" by arith
      with le0 show False by (simp add: scan_state_start)
    qed
    then obtain k' where k': "e - 1 = Suc k'" "s \<le> k'" by (cases "e - 1") auto
    have "0 < fst (scan_state code s k')"
      using pos [of k'] k' by simp
    with scan_state_depth [OF k'(2), of code] le0 k'
    have "fst (scan_state code s (e - 1)) = 0" by simp
    moreover have "\<forall>j. s < j \<and> j < e - 1 \<longrightarrow> 0 < fst (scan_state code s j)"
      using pos by simp
    moreover from bounds ne have "e - 1 < length code" by arith
    ultimately show "s < e - 1 \<and> e - 1 < length code \<and> fst (scan_state code s (e - 1)) = 0
         \<and> (\<forall>j. s < j \<and> j < e - 1 \<longrightarrow> 0 < fst (scan_state code s j))"
      using s1 by simp
  }
qed

text \<open>The string regions and the depth of braces of the specification.\<close>

lemma string_mode_start: "string_mode code s s = None"
  by (simp add: string_mode_def)

lemma string_mode_Suc:
  "s \<le> k \<Longrightarrow> string_mode code s (Suc k) = mode_step code (string_mode code s k) (Suc k)"
  by (simp add: string_mode_def)

lemma counted_start: "counted code s c s = 0"
  by (simp add: counted_def)

lemma counted_Suc:
  "s \<le> k \<Longrightarrow> counted code s c (Suc k) =
     counted code s c k + (if code ! Suc k = c \<and> string_mode code s (Suc k) = None then 1 else 0)"
  by (simp add: counted_def)

lemma depth_start: "depth code s s = 1"
  by (simp add: depth_def counted_start)

lemma string_mode_quote: "s \<le> k \<Longrightarrow> string_mode code s k = Some q \<Longrightarrow> is_quote q"
proof (induction k rule: dec_induct)
  case base
  then show ?case by (simp add: string_mode_start)
next
  case (step k)
  then show ?case
    by (cases "string_mode code s k")
       (auto simp: string_mode_Suc mode_step_def split: if_splits)
qed

lemma escaped_prev: "escaped code (Suc k) \<Longrightarrow> char_at code k = Some bsl"
  by (cases k) (simp_all add: escaped_def)

lemma balancing_iff:
  "balancing code s k \<longleftrightarrow>
     s < k \<and> k < length code \<and> depth code s k = 0 \<and> (\<forall>j. s < j \<and> j < k \<longrightarrow> 0 < depth code s j)"
  by (auto simp: balancing_def list_all_iff)

text \<open>
  As long as the two tests of a quote character do not part, the forward loop holds the
  depth of braces and the string mode of the specification.
\<close>

lemma scan_agrees:
  assumes "s \<le> k" and "k < length code"
    and "\<forall>j. s < j \<and> j \<le> k \<longrightarrow> \<not> escape_test_differs code s j"
  shows "fst (scan_state code s k) = depth code s k
     \<and> fst (snd (scan_state code s k)) = (string_mode code s k \<noteq> None)
     \<and> (\<forall>q. string_mode code s k = Some q \<longrightarrow> snd (snd (scan_state code s k)) = [q])"
  using assms
proof (induction k rule: dec_induct)
  case base
  show ?case by (simp add: scan_state_start depth_start string_mode_start)
next
  case (step k)
  from step.prems have k: "k < length code" "Suc k < length code" by simp_all
  from step.prems have "\<forall>j. s < j \<and> j \<le> k \<longrightarrow> \<not> escape_test_differs code s j" by simp
  from step.IH [OF k(1) this] obtain d i sc where
    st: "scan_state code s k = (d, i, sc)" and d: "d = depth code s k"
    and i: "i = (string_mode code s k \<noteq> None)"
    and sc: "\<forall>q. string_mode code s k = Some q \<longrightarrow> sc = [q]"
    by (cases "scan_state code s k") auto
  from step.prems step.hyps have nd: "\<not> escape_test_differs code s (Suc k)" by simp
  have prev: "prev_char code (Suc k) = Some (code ! k)"
    using k by (simp add: prev_char_def char_at_def)
  have esc: "escaped code (Suc k) \<Longrightarrow> code ! k = bsl"
    using escaped_prev [of code k] k by (simp add: char_at_def)
  have dS: "depth code s (Suc k) = depth code s k
      + (if code ! Suc k = CHR ''{'' \<and> string_mode code s (Suc k) = None then 1 else 0)
      - (if code ! Suc k = CHR ''}'' \<and> string_mode code s (Suc k) = None then 1 else 0)"
    using step.hyps by (simp add: depth_def counted_Suc)
  show ?case
  proof (cases "string_mode code s k")
    case None
    with i have ni: "\<not> i" by simp
    show ?thesis
    proof (cases "is_quote (code ! Suc k)")
      case True
      with nd None have "\<not> escaped code (Suc k)"
        by (simp add: escape_test_differs_def)
      with True None have m: "string_mode code s (Suc k) = Some (code ! Suc k)"
        using step.hyps by (simp add: string_mode_Suc mode_step_def)
      from True have nb: "code ! Suc k \<noteq> CHR ''{''" "code ! Suc k \<noteq> CHR ''}''"
        by (auto simp: is_quote_def)
      from True ni st d m nb show ?thesis
        using step.hyps by (simp add: scan_state_Suc scan_step_def dS is_quote_def Let_def)
    next
      case False
      with None have m: "string_mode code s (Suc k) = None"
        using step.hyps by (simp add: string_mode_Suc mode_step_def)
      from False ni st d m show ?thesis
        using step.hyps by (simp add: scan_state_Suc scan_step_def dS is_quote_def Let_def)
    qed
  next
    case (Some q)
    with i sc have ii: "i" "sc = [q]" by simp_all
    from string_mode_quote [OF step.hyps(1) Some] have qq: "is_quote q" .
    show ?thesis
    proof (cases "code ! Suc k = q")
      case True
      with nd Some qq have "code ! k = bsl \<longrightarrow> escaped code (Suc k)"
        by (simp add: escape_test_differs_def prev)
      with esc have e: "escaped code (Suc k) \<longleftrightarrow> code ! k = bsl" by blast
      from True qq have nb: "code ! Suc k \<noteq> CHR ''{''" "code ! Suc k \<noteq> CHR ''}''"
        by (auto simp: is_quote_def)
      have m: "string_mode code s (Suc k) = (if code ! k = bsl then Some q else None)"
        using step.hyps True Some qq e by (simp add: string_mode_Suc mode_step_def)
      from True ii st d m nb show ?thesis
        using step.hyps by (simp add: scan_state_Suc scan_step_def dS Let_def prev)
    next
      case False
      have m: "string_mode code s (Suc k) = Some q"
        using step.hyps False Some by (simp add: string_mode_Suc mode_step_def)
      from False ii st d m show ?thesis
        using step.hyps by (simp add: scan_state_Suc scan_step_def dS Let_def prev)
    qed
  qed
qed

lemma scan_depth:
  assumes "s \<le> k" and "k < length code"
    and "\<forall>j. s < j \<and> j \<le> k \<longrightarrow> \<not> escape_test_differs code s j"
  shows "fst (scan_state code s k) = depth code s k"
  using scan_agrees [OF assms] by simp

lemma findFunctionScopeAtIndex_end:
  assumes "findFunctionScopeAtIndex code i = Some sc"
  shows "char_at code (startIndex sc) = Some (CHR ''{'')
     \<and> startIndex sc < endIndex sc \<and> endIndex sc \<le> length code
     \<and> functionCode sc = slice code (startIndex sc) (endIndex sc)
     \<and> (\<forall>k. balancing code (startIndex sc) k
            \<and> (\<forall>j. startIndex sc < j \<and> j \<le> k \<longrightarrow> \<not> escape_test_differs code (startIndex sc) j) \<longrightarrow>
            endIndex sc = k + 1 \<and> char_at code k = Some (CHR ''}''))
     \<and> ((\<forall>k. \<not> balancing code (startIndex sc) k)
          \<and> (\<forall>j. startIndex sc < j \<and> j < length code \<longrightarrow>
                 \<not> escape_test_differs code (startIndex sc) j) \<longrightarrow>
            endIndex sc = length code)"
proof -
  from assms obtain s where s: "scan_backwards code i 0 = Some s"
    and sc: "startIndex sc = s" "endIndex sc = find_closing code (s + 1) (1, False, [])"
      "functionCode sc = slice code s (find_closing code (s + 1) (1, False, []))"
    by (auto simp: findFunctionScopeAtIndex_def Let_def slice_def split: option.splits)
  let ?e = "find_closing code (s + 1) (1, False, [])"
  from scan_backwards_Some [OF s] have br: "char_at code s = Some (CHR ''{'')" by simp
  then have len: "s < length code"
    by (simp add: char_at_def split: if_splits)
  note fc = find_closing_end [OF len]
  have a: "?e = k + 1 \<and> char_at code k = Some (CHR ''}'')"
    if b: "balancing code s k"
      and h: "\<forall>j. s < j \<and> j \<le> k \<longrightarrow> \<not> escape_test_differs code s j" for k
  proof (rule fc(2))
    from b show k: "s < k" "k < length code" by (simp_all add: balancing_iff)
    from b have "depth code s k = 0" by (simp add: balancing_iff)
    with scan_depth [of s k code] k h show "fst (scan_state code s k) = 0" by simp
    fix j assume j: "s < j" "j < k"
    with b have "0 < depth code s j" by (simp add: balancing_iff)
    moreover from h j have "\<forall>j'. s < j' \<and> j' \<le> j \<longrightarrow> \<not> escape_test_differs code s j'" by simp
    ultimately show "0 < fst (scan_state code s j)"
      using scan_depth [of s j code] j k by simp
  qed
  have b: "?e = length code"
    if none: "\<forall>k. \<not> balancing code s k"
      and h: "\<forall>j. s < j \<and> j < length code \<longrightarrow> \<not> escape_test_differs code s j"
  proof (rule ccontr)
    assume "?e \<noteq> length code"
    from fc(3) [OF this] have k: "s < ?e - 1" "?e - 1 < length code"
      and z: "fst (scan_state code s (?e - 1)) = 0"
      and p: "\<forall>j. s < j \<and> j < ?e - 1 \<longrightarrow> 0 < fst (scan_state code s j)"
      by simp_all
    have d: "fst (scan_state code s j) = depth code s j" if "s \<le> j" "j \<le> ?e - 1" for j
      using scan_depth [of s j code] that k h by simp
    from z d [of "?e - 1"] k have "depth code s (?e - 1) = 0" by simp
    moreover have "\<forall>j. s < j \<and> j < ?e - 1 \<longrightarrow> 0 < depth code s j"
      using p d by simp
    ultimately have "balancing code s (?e - 1)"
      using k by (simp add: balancing_iff)
    with none show False by blast
  qed
  from fc(1) br sc a b show ?thesis
    by simp
qed

lemma scopes_loop_members:
  assumes "scopes_loop r code li acc = Some scs"
  shows "\<forall>sc \<in> set scs. sc \<in> set acc \<or> sc = global_scope code
        \<or> (\<exists>i. findFunctionScopeAtIndex code i = Some sc)"
proof (rule scopes_loop.raw_induct
    [where P = "\<lambda>r code li acc scs. \<forall>sc \<in> set scs. sc \<in> set acc \<or> sc = global_scope code
        \<or> (\<exists>i. findFunctionScopeAtIndex code i = Some sc)", OF _ assms])
  fix f :: "regex \<Rightarrow> string \<Rightarrow> nat \<Rightarrow> DirectiveScope list \<Rightarrow> DirectiveScope list option"
  fix r code li acc scs
  assume IH: "\<And>r code li acc scs. f r code li acc = Some scs \<Longrightarrow>
      \<forall>sc \<in> set scs. sc \<in> set acc \<or> sc = global_scope code
        \<or> (\<exists>i. findFunctionScopeAtIndex code i = Some sc)"
  assume eq: "(case exec r code li of
        None \<Rightarrow> Some acc
      | Some m \<Rightarrow>
          if m_index m = 0 \<or> trim (take (m_index m) code) = [] then Some [global_scope code]
          else f r code (m_end m)
                 (case findFunctionScopeAtIndex code (m_index m) of
                    None \<Rightarrow> acc
                  | Some scope \<Rightarrow> acc @ [scope])) = Some scs"
  show "\<forall>sc \<in> set scs. sc \<in> set acc \<or> sc = global_scope code
        \<or> (\<exists>i. findFunctionScopeAtIndex code i = Some sc)"
  proof (cases "exec r code li")
    case None
    with eq show ?thesis by auto
  next
    case (Some m)
    show ?thesis
    proof (cases "m_index m = 0 \<or> trim (take (m_index m) code) = []")
      case True
      with Some eq show ?thesis by auto
    next
      case False
      with Some eq have
        "f r code (m_end m) (case findFunctionScopeAtIndex code (m_index m) of
             None \<Rightarrow> acc | Some scope \<Rightarrow> acc @ [scope]) = Some scs"
        by simp
      from IH [OF this] show ?thesis
        by (auto split: option.splits)
    qed
  qed
qed


text \<open>
  Claim C1, as the source has it. When the marker occurs and no opening brace before its
  first occurrence is left unclosed (every stretch of text that ends at the occurrence
  has at least as many closing braces as opening ones, so the backward scan never drives
  its counter below zero), \<^verbatim>\<open>getDirectiveScope\<close> returns \<^verbatim>\<open>null\<close>; it does not return
  a scope named \<^verbatim>\<open>global\<close>.
\<close>

theorem getDirectiveScope_top_level:
  assumes "RegExp_new (directiveSource directiveName) = Inr r"
    and "exec r code 0 = Some m"
    and "\<forall>j < m_index m. 0 \<le> brace_balance (slice code j (m_index m))"
  shows "getDirectiveScope code directiveName = Inr None"
proof -
  from exec_bounds(2) [OF assms(2)] have "m_index m \<le> length code" by simp
  from scan_backwards_None_iff [OF this, of 0] assms(3)
  have "scan_backwards code (m_index m) 0 = None" by simp
  with assms(1,2) show ?thesis
    by (simp add: getDirectiveScope_def findFunctionScopeAtIndex_def)
qed

theorem getDirectiveScope_top_level_witness:
  \<open>exec (projr (RegExp_new (directiveSource ''test''))) ''const x = 1; "use test";'' 0 =
     Some \<lparr>m_index = 13, m_text = ''"use test"'', m_groups = []\<rparr>
   \<and> scan_backwards ''const x = 1; "use test";'' 13 0 = None
   \<and> getDirectiveScope ''const x = 1; "use test";'' ''test'' = Inr None\<close>
proof -
  let ?code = \<open>''const x = 1; "use test";''\<close>
  let ?m = \<open>\<lparr>m_index = 13, m_text = ''"use test"'', m_groups = []\<rparr>\<close>
  have r: "RegExp_new (directiveSource ''test'') = Inr (projr (RegExp_new (directiveSource ''test'')))"
    by code_simp
  have m: "exec (projr (RegExp_new (directiveSource ''test''))) ?code 0 = Some ?m"
    by code_simp
  have s: "scan_backwards ?code 13 0 = None"
    by code_simp
  have "length ?code = 24" by simp
  with s scan_backwards_None_iff [of 13 ?code 0]
  have b: "\<forall>j < m_index ?m. 0 \<le> brace_balance (slice ?code j (m_index ?m))"
    by simp
  from getDirectiveScope_top_level [OF r m b] m s show ?thesis
    by simp
qed

text \<open>
  The claim C1 as the specification states it fails: in the text below the marker stands
  at the top level, at offset 13, the backward scan finds no brace, and the result is
  \<^verbatim>\<open>null\<close>, not the scope of the whole file.
\<close>

theorem getDirectiveScope_top_level_not_global:
  \<open>scan_backwards ''const x = 1; "use test";'' 13 0 = None
   \<and> getDirectiveScope ''const x = 1; "use test";'' ''test'' = Inr None
   \<and> getDirectiveScope ''const x = 1; "use test";'' ''test''
       \<noteq> Inr (Some (global_scope ''const x = 1; "use test";''))\<close>
  by code_simp

text \<open>
  Claim C2. The name of the scope should come from the pattern nearest to the opening
  brace. The source matches the pattern against the whole text before the brace and takes
  the first match: for a marker in the second function of a text, the scope is the body
  of the second function under the name of the first.
\<close>

theorem function_name_from_first_pattern:
  \<open>getDirectiveScope ''function a() {} function b() { "use test" }'' ''test'' =
     Inr (Some \<lparr>functionName = ''a'', functionCode = ''{ "use test" }'',
                 startIndex = 29, endIndex = 43\<rparr>)\<close>
  by code_simp

text \<open>
  Claim C3, as the source has it. For every scope that \<^verbatim>\<open>getDirectiveScope\<close> returns, and
  every scope but the global one that \<^verbatim>\<open>getAllDirectiveScopes\<close> returns: the text has
  an opening brace at \<^verbatim>\<open>startIndex\<close>; \<^verbatim>\<open>functionCode\<close> is the text from \<^verbatim>\<open>startIndex\<close> up
  to \<^verbatim>\<open>endIndex\<close>, which is excluded; when the brace at an offset \<open>k\<close> balances the opening
  one, counting the braces outside the string regions of the specification, \<^verbatim>\<open>endIndex\<close>
  is \<open>k + 1\<close>, one past that closing brace; and when no brace balances it, \<^verbatim>\<open>endIndex\<close> is
  the length of the text. This is stated for the texts in which the test of the source
  and the test of the specification agree at every quote character that is read; of the
  other texts nothing is stated.
\<close>

theorem scope_end_past_balancing_brace:
  assumes "getDirectiveScope code directiveName = Inr (Some sc)
     \<or> (getAllDirectiveScopes code directiveName = Some (Inr scopes)
          \<and> sc \<in> set scopes \<and> sc \<noteq> global_scope code)"
  shows "char_at code (startIndex sc) = Some (CHR ''{'')
     \<and> startIndex sc < endIndex sc \<and> endIndex sc \<le> length code
     \<and> functionCode sc = slice code (startIndex sc) (endIndex sc)
     \<and> (\<forall>k. balancing code (startIndex sc) k
            \<and> (\<forall>j. startIndex sc < j \<and> j \<le> k \<longrightarrow> \<not> escape_test_differs code (startIndex sc) j) \<longrightarrow>
            endIndex sc = k + 1 \<and> char_at code k = Some (CHR ''}''))
     \<and> ((\<forall>k. \<not> balancing code (startIndex sc) k)
          \<and> (\<forall>j. startIndex sc < j \<and> j < length code \<longrightarrow>
                 \<not> escape_test_differs code (startIndex sc) j) \<longrightarrow>
            endIndex sc = length code)"
proof -
  have "\<exists>i. findFunctionScopeAtIndex code i = Some sc"
    using assms
  proof
    assume "getDirectiveScope code directiveName = Inr (Some sc)"
    then show ?thesis
      by (auto simp: getDirectiveScope_def split: sum.splits option.splits)
  next
    assume a: "getAllDirectiveScopes code directiveName = Some (Inr scopes)
          \<and> sc \<in> set scopes \<and> sc \<noteq> global_scope code"
    then obtain r where "scopes_loop r code 0 [] = Some scopes"
      by (auto simp: getAllDirectiveScopes_def split: sum.splits)
    from scopes_loop_members [OF this] a show ?thesis
      by auto
  qed
  then obtain i where "findFunctionScopeAtIndex code i = Some sc" ..
  then show ?thesis
    by (rule findFunctionScopeAtIndex_end)
qed

theorem scope_end_past_balancing_brace_witness:
  \<open>getDirectiveScope (''function f() { "use test"; s = "}'' @ [bsl] @ ''"{"; } g()'') ''test'' =
     Inr (Some \<lparr>functionName = ''f'',
                 functionCode = ''{ "use test"; s = "}'' @ [bsl] @ ''"{"; }'',
                 startIndex = 13, endIndex = 40\<rparr>)
   \<and> balancing (''function f() { "use test"; s = "}'' @ [bsl] @ ''"{"; } g()'') 13 39
   \<and> list_all (\<lambda>j. \<not> escape_test_differs
                      (''function f() { "use test"; s = "}'' @ [bsl] @ ''"{"; } g()'') 13 j) [14 ..< 40]
   \<and> char_at (''function f() { "use test"; s = "}'' @ [bsl] @ ''"{"; } g()'') 39 = Some (CHR ''}'')
   \<and> slice (''function f() { "use test"; s = "}'' @ [bsl] @ ''"{"; } g()'') 13 40 =
       ''{ "use test"; s = "}'' @ [bsl] @ ''"{"; }''\<close>
proof -
  let ?code = \<open>''function f() { "use test"; s = "}'' @ [bsl] @ ''"{"; } g()''\<close>
  let ?body = \<open>''{ "use test"; s = "}'' @ [bsl] @ ''"{"; }''\<close>
  let ?sc = \<open>\<lparr>functionName = ''f'', functionCode = ?body, startIndex = 13, endIndex = 40\<rparr>\<close>
  have g: "getDirectiveScope ?code ''test'' = Inr (Some ?sc)"
    by code_simp
  have b: "balancing ?code 13 39"
    by code_simp
  have h: "list_all (\<lambda>j. \<not> escape_test_differs ?code 13 j) [14 ..< 40]"
    by code_simp
  have h': "\<forall>j. 13 < j \<and> j \<le> 39 \<longrightarrow> \<not> escape_test_differs ?code 13 j"
  proof (intro allI impI)
    fix j :: nat
    assume "13 < j \<and> j \<le> 39"
    then have "14 \<le> j \<and> j < 40" by arith
    then have "j \<in> set [14 ..< 40]"
      by (simp only: set_upt atLeastLessThan_iff)
    with h show "\<not> escape_test_differs ?code 13 j"
      by (simp only: list_all_iff) blast
  qed
  have sel: "startIndex ?sc = 13" "endIndex ?sc = 40" "functionCode ?sc = ?body"
    by simp_all
  note t = scope_end_past_balancing_brace [of ?code "''test''" ?sc "[]", OF disjI1 [OF g]]
  from t have "balancing ?code (startIndex ?sc) 39
      \<and> (\<forall>j. startIndex ?sc < j \<and> j \<le> 39 \<longrightarrow> \<not> escape_test_differs ?code (startIndex ?sc) j) \<longrightarrow>
      endIndex ?sc = 39 + 1 \<and> char_at ?code 39 = Some (CHR ''}'')"
    by blast
  with b h' have c: "char_at ?code 39 = Some (CHR ''}'')"
    unfolding sel by blast
  from t have "functionCode ?sc = slice ?code (startIndex ?sc) (endIndex ?sc)"
    by blast
  then have s: \<open>slice ?code 13 40 = ?body\<close>
    unfolding sel by (rule sym)
  from g b h c s show ?thesis
    by (intro conjI)
qed

text \<open>
  The claim C3 as the specification states it fails: the closing brace that balances the
  brace at offset 13 stands at offset 26, and \<^verbatim>\<open>endIndex\<close> is 27, which is the length of
  the text and the offset of no code unit.
\<close>

theorem scope_end_is_not_brace_offset:
  \<open>getDirectiveScope ''function f() { "use test" }'' ''test'' =
     Inr (Some \<lparr>functionName = ''f'', functionCode = ''{ "use test" }'',
                 startIndex = 13, endIndex = 27\<rparr>)
   \<and> balancing ''function f() { "use test" }'' 13 26
   \<and> char_at ''function f() { "use test" }'' 26 = Some (CHR ''}'')
   \<and> char_at ''function f() { "use test" }'' 27 = None\<close>
  by code_simp

text \<open>
  Where the two tests part. In the text below the string \<^verbatim>\<open>'\\'\<close> ends with a quote
  after an escaped backslash, at offset 34. The brace at offset 37 balances the opening
  brace; the forward loop takes the rest of the text for a string and runs to the end
  of the text, so that the scope of \<^verbatim>\<open>f\<close> holds the function \<^verbatim>\<open>g\<close> as well.
\<close>

lemma scope_end_after_escaped_backslash:
  \<open>getDirectiveScope
       (''function f() { "use test"; s = '' @ [CHR 0x27, bsl, bsl, CHR 0x27] @ ''; } function g() { }'')
       ''test'' =
     Inr (Some \<lparr>functionName = ''f'',
                 functionCode = ''{ "use test"; s = '' @ [CHR 0x27, bsl, bsl, CHR 0x27]
                                  @ ''; } function g() { }'',
                 startIndex = 13, endIndex = 55\<rparr>)
   \<and> balancing
       (''function f() { "use test"; s = '' @ [CHR 0x27, bsl, bsl, CHR 0x27] @ ''; } function g() { }'')
       13 37
   \<and> filter (escape_test_differs
       (''function f() { "use test"; s = '' @ [CHR 0x27, bsl, bsl, CHR 0x27] @ ''; } function g() { }'')
       13) [14 ..< 55] = [34]\<close>
  by code_simp

text \<open>
  Claim C5. When the pattern of the marker matches the text at an offset before which the
  text has only white space (or nothing), \<^verbatim>\<open>getAllDirectiveScopes\<close> returns one scope: it
  is named \<^verbatim>\<open>global\<close>, its code is the whole text, and it runs from 0 to the length of the
  text, whatever other occurrences the text has.
\<close>

theorem getAllDirectiveScopes_global:
  assumes "RegExp_new (directiveSource directiveName) = Inr r"
    and "matches_at r t p"
    and "\<forall>c \<in> set (take p t). is_space c"
  shows "getAllDirectiveScopes t directiveName =
           Some (Inr [\<lparr>functionName = ''global'', functionCode = t,
                        startIndex = 0, endIndex = length t\<rparr>])"
proof -
  from exec_finds [OF assms(2)] obtain m where m: "exec r t 0 = Some m" "m_index m \<le> p"
    by blast
  have "set (take (m_index m) t) \<subseteq> set (take p t)"
    using m(2) by (simp add: set_take_subset_set_take)
  with assms(3) have "\<forall>c \<in> set (take (m_index m) t). is_space c"
    by blast
  then have "trim (take (m_index m) t) = []"
    by (rule trim_spaces)
  with m(1) have "scopes_loop r t 0 [] = Some [global_scope t]"
    by (subst scopes_loop.simps) simp
  with assms(1) show ?thesis
    by (simp add: getAllDirectiveScopes_def global_scope_def)
qed

theorem getAllDirectiveScopes_global_witness:
  \<open>matches_at (projr (RegExp_new (directiveSource ''test'')))
       ('' '' @ [CHR 0x0A] @ ''"use test"; function f() { "use test" }'') 2
   \<and> list_all is_space (take 2 ('' '' @ [CHR 0x0A] @ ''"use test"; function f() { "use test" }''))
   \<and> getAllDirectiveScopes ('' '' @ [CHR 0x0A] @ ''"use test"; function f() { "use test" }'') ''test'' =
       Some (Inr [\<lparr>functionName = ''global'',
                    functionCode = '' '' @ [CHR 0x0A] @ ''"use test"; function f() { "use test" }'',
                    startIndex = 0, endIndex = 41\<rparr>])\<close>
proof -
  let ?t = \<open>'' '' @ [CHR 0x0A] @ ''"use test"; function f() { "use test" }''\<close>
  have r: "RegExp_new (directiveSource ''test'') = Inr (projr (RegExp_new (directiveSource ''test'')))"
    by code_simp
  have m: "matches_at (projr (RegExp_new (directiveSource ''test''))) ?t 2"
    by code_simp
  have w: "list_all is_space (take 2 ?t)"
    by code_simp
  then have w': "\<forall>c \<in> set (take 2 ?t). is_space c"
    by (simp only: list_all_iff)
  from getAllDirectiveScopes_global [OF r m w'] m w show ?thesis
    by simp
qed


section \<open>Properties of the text mutators\<close>

lemma matcher_fails:
  "matcher r s i = Inr None \<longleftrightarrow>
     ms r (rev (take i s), drop i s, replicate (length (groups r)) None) = []"
  by (cases "ms r (rev (take i s), drop i s, replicate (length (groups r)) None)")
     (auto simp: matcher_def)

lemma matches_nowhere_matcher:
  "matches_nowhere (matcher r) s \<longleftrightarrow> (\<forall>p. \<not> matches_at r s p)"
  by (auto simp: matches_nowhere_iff matcher_fails matches_at_def)


















text \<open>Some calls with patterns that are accepted.\<close>

lemma replaceText_examples:
  \<open>replaceText engine ''a.b.c'' ''.'' ''x'' = Inr ''xxxxx''
   \<and> replaceText engine ''a.b.c'' (bsl # ''.'') ''-'' = Inr ''a-b-c''
   \<and> replaceComponent engine ''<Button>Click</Button>'' ''Button'' ''CustomButton''
        = Inr ''<CustomButton>Click</CustomButton>''
   \<and> removeComponent engine ''<Spinner/>'' ''Spinner'' = Inr []
   \<and> removeComponent engine ''<Spinner>Loading</Spinner>'' ''Spinner'' = Inr ''Loading''\<close>
  by code_simp

section \<open>Adding and removing an attribute\<close>

subsection \<open>Sequences of patterns\<close>

fun ms_list :: "regex list \<Rightarrow> mstate \<Rightarrow> mstate list" where
  "ms_list [] st = [st]"
| "ms_list (r # rs) st = concat (map (ms_list rs) (ms r st))"

lemma concat_map_single: "concat (map (\<lambda>x. [x]) xs) = xs"
  by (induction xs) auto

lemma concat_map_concat:
  "concat (map f (concat xss)) = concat (map (\<lambda>xs. concat (map f xs)) xss)"
  by (induction xss) auto

lemma ms_mk_seq: "ms (mk_seq rs) st = ms_list rs st"
proof (induction rs arbitrary: st rule: mk_seq.induct)
  case 1
  show ?case by simp
next
  case (2 t)
  have "ms_list [] = (\<lambda>st. [st])" by (rule ext) simp
  then show ?case by (simp add: concat_map_single)
next
  case (3 t v va)
  then have "ms (mk_seq (v # va)) = ms_list (v # va)" by (intro ext)
  then show ?case by simp
qed

lemma ms_list_append: "ms_list (rs @ rs') st = concat (map (ms_list rs') (ms_list rs st))"
proof (induction rs arbitrary: st)
  case Nil
  then show ?case by simp
next
  case (Cons r rs)
  then have "ms_list (rs @ rs') = (\<lambda>s. concat (map (ms_list rs') (ms_list rs s)))"
    by (intro ext)
  then show ?case
    by (simp add: concat_map_concat comp_def)
qed

lemma ms_list_lits:
  "ms_list (map Chr w) (pre, post, caps) =
     (if prefix w post then [(rev w @ pre, drop (length w) post, caps)] else [])"
proof (induction w arbitrary: pre post)
  case Nil
  then show ?case by simp
next
  case (Cons c w)
  then show ?case
    by (cases post) simp_all
qed

lemma step_char_suffix:
  "st' \<in> set (step_char P st) \<Longrightarrow>
     \<exists>c. P c \<and> fst st' = c # fst st \<and> fst (snd st) = c # fst (snd st') \<and> snd (snd st') = snd (snd st)"
proof -
  obtain pre post caps where st: "st = (pre, post, caps)" by (cases st)
  assume "st' \<in> set (step_char P st)"
  with st show ?thesis
    by (cases post) (auto split: if_splits)
qed

definition advances :: "mstate \<Rightarrow> mstate \<Rightarrow> bool" where
  "advances st st' = (\<exists>w. fst st' = rev w @ fst st \<and> fst (snd st) = w @ fst (snd st'))"

lemma advances_refl: "advances st st"
  by (simp add: advances_def)

lemma advances_trans: "advances a b \<Longrightarrow> advances b c \<Longrightarrow> advances a c"
proof -
  assume "advances a b" "advances b c"
  then obtain w1 w2 where "fst b = rev w1 @ fst a" "fst (snd a) = w1 @ fst (snd b)"
    "fst c = rev w2 @ fst b" "fst (snd b) = w2 @ fst (snd c)"
    by (auto simp: advances_def)
  then have "fst c = rev (w1 @ w2) @ fst a \<and> fst (snd a) = (w1 @ w2) @ fst (snd c)"
    by simp
  then show ?thesis unfolding advances_def by blast
qed

lemma step_char_advances: "st' \<in> set (step_char P st) \<Longrightarrow> advances st st'"
proof -
  assume "st' \<in> set (step_char P st)"
  from step_char_suffix [OF this] obtain c where
    "fst st' = rev [c] @ fst st" "fst (snd st) = [c] @ fst (snd st')"
    by auto
  then show ?thesis unfolding advances_def by blast
qed

lemma ms_advances: "st' \<in> set (ms r st) \<Longrightarrow> advances st st'"
proof (induction r st arbitrary: st' rule: ms.induct)
  case (1 st)
  then show ?case by (simp add: advances_refl)
next
  case (2 c st)
  then show ?case by (simp add: step_char_advances)
next
  case (3 st)
  then show ?case by (simp add: step_char_advances)
next
  case (4 neg items st)
  then show ?case by (simp add: step_char_advances)
next
  case (5 a b st)
  from 5(3) obtain st1 where s1: "st1 \<in> set (ms a st)" and s2: "st' \<in> set (ms b st1)"
    by auto
  from 5(1) [OF s1] 5(2) [OF s1 s2] show ?case
    by (rule advances_trans)
next
  case (6 a b st)
  from 6(3) have "st' \<in> set (ms a st) \<or> st' \<in> set (ms b st)" by simp
  with 6(1) 6(2) show ?case by blast
next
  case (7 k r pre post caps)
  from 7(2) obtain st1 where s1: "st1 \<in> set (ms r (pre, post, caps))"
    and e: "fst st' = fst st1" "fst (snd st') = fst (snd st1)"
    by auto
  from 7(1) [OF s1] e show ?case
    by (simp add: advances_def)
next
  case (8 pos r pre post caps)
  then show ?case
    by (auto simp: advances_def split: list.splits if_splits)
next
  case (9 b pre post caps)
  then show ?case
    by (auto simp: advances_def Let_def split: if_splits)
next
  case (10 pre post caps)
  then show ?case by (auto simp: advances_def split: if_splits)
next
  case (11 pre post caps)
  then show ?case by (auto simp: advances_def split: if_splits)
next
  case (12 r mn mx g pre post caps)
  show ?case
  proof (cases "mx = Some 0")
    case True
    with 12(3) show ?thesis by (subst (asm) ms_Rep) (simp add: advances_refl)
  next
    case False
    let ?st = "(pre, post, caps)"
    let ?reset = "(pre, post, reset_groups (groups r) caps)"
    let ?ok = "(\<lambda>(pre', post', caps'). 0 < mn \<or> length post' < length post) :: mstate \<Rightarrow> bool"
    let ?iter = "concat (map (ms (Rep r (mn - 1) (dec mx) g)) (filter ?ok (ms r ?reset)))"
    have "ms (Rep r mn mx g) ?st =
        (if 0 < mn then ?iter else if g then ?iter @ [?st] else ?st # ?iter)"
      using False by (subst ms_Rep) (simp add: Let_def)
    with 12(3) have "st' \<in> set ?iter \<or> st' = ?st"
      by (auto split: if_splits)
    then show ?thesis
    proof
      assume "st' \<in> set ?iter"
      then obtain st1 where s1: "st1 \<in> set (filter ?ok (ms r ?reset))"
        and s2: "st' \<in> set (ms (Rep r (mn - 1) (dec mx) g) st1)"
        by auto
      from s1 have s1': "st1 \<in> set (ms r ?reset)" by simp
      from 12(1) False s1' have "advances ?reset st1"
        by blast
      then have a1: "advances ?st st1"
        by (simp add: advances_def)
      obtain p1 q1 c1 where st1: "st1 = (p1, q1, c1)" by (cases st1)
      from 12(2) False s1 s2 have a2: "advances st1 st'"
        unfolding st1 by blast
      from a1 a2 show ?thesis by (rule advances_trans)
    next
      assume "st' = ?st"
      then show ?thesis by (simp add: advances_refl)
    qed
  qed
qed

lemma is_word_not_special:
  assumes "is_word c"
  shows "c \<noteq> CHR ''|''" "c \<noteq> CHR ''(''" "c \<noteq> CHR '')''" "c \<noteq> CHR ''*''" "c \<noteq> CHR ''+''"
    "c \<noteq> CHR ''?''" "c \<noteq> CHR ''{''" "c \<noteq> CHR ''[''" "c \<noteq> bsl" "c \<noteq> CHR ''^''"
    "c \<noteq> CHR ''$''" "c \<noteq> CHR ''.''" "c \<noteq> CHR ''<''" "c \<noteq> CHR ''>''" "c \<noteq> CHR 0x22"
    "c \<noteq> CHR '' ''" "\<not> is_space c"
  using assms by (auto simp: is_word_def is_digit_def is_space_def code_unit_def)

lemma parse_word:
  "\<forall>c \<in> set w. is_word c \<Longrightarrow>
     parse (w @ s) ((k, alts, cur) # rest) n =
       parse s ((k, alts, rev (map (\<lambda>c. (Chr c, True)) w) @ cur) # rest) n"
proof (induction w arbitrary: cur)
  case Nil
  then show ?case by simp
next
  case (Cons c w)
  from Cons.prems have c: "is_word c" and w: "\<forall>c \<in> set w. is_word c" by simp_all
  show ?case
    using Cons.IH [OF w] by (simp add: is_word_not_special [OF c])
qed

definition space_class :: regex where
  "space_class = Class False [Esc False Spaces]"

definition not_class :: "char \<Rightarrow> regex" where
  "not_class c = Class True [CRange c c]"

definition star :: "regex \<Rightarrow> regex" where
  "star r = Rep r 0 None True"

definition opt :: "regex \<Rightarrow> regex" where
  "opt r = Rep r 0 (Some 1) True"

definition addPropPattern :: "string \<Rightarrow> regex" where
  \<open>addPropPattern c =
     Seq (Group 1 (mk_seq (Chr CHR ''<'' # map Chr c
                     @ [opt (Seq space_class (star (not_class CHR ''>'')))])))
         (Group 2 (Class False [Esc False Spaces, CRange CHR ''/'' CHR ''/'', CRange CHR ''>'' CHR ''>'']))\<close>

definition quoted :: "char \<Rightarrow> regex" where
  "quoted q = Seq (Chr q) (Seq (star (not_class q)) (Chr q))"

definition prop_value :: regex where
  \<open>prop_value = opt (Seq (Chr CHR ''='') (Alt (quoted (CHR 0x22)) (quoted (CHR 0x27))))\<close>

definition propPattern :: "string \<Rightarrow> regex" where
  "propPattern p = mk_seq (space_class # map Chr p @ [prop_value])"

definition removePropPattern :: "string \<Rightarrow> string \<Rightarrow> regex" where
  \<open>removePropPattern c p =
     mk_seq (Chr CHR ''<'' # map Chr c
       @ [star (not_class CHR ''>''), space_class] @ map Chr p
       @ [prop_value, star (not_class CHR ''>''), Chr CHR ''>''])\<close>

lemmas parse_unfold =
  RegExp_new_def parse_word opt_def star_def space_class_def not_class_def quoted_def
  prop_value_def char_class_def class_escape_def atom_escape_def rev_map comp_def

lemma addPropSource_compiles:
  assumes "\<forall>x \<in> set c. is_word x"
  shows "RegExp_new (addPropSource c) = Inr (addPropPattern c)"
  using assms
  by (simp add: addPropSource_def addPropPattern_def parse_unfold)

lemma propSource_compiles:
  assumes "\<forall>x \<in> set p. is_word x"
  shows "RegExp_new (propSource p) = Inr (propPattern p)"
  using assms
  by (simp add: propSource_def propPattern_def parse_unfold)

lemma removePropSource_compiles:
  assumes "\<forall>x \<in> set c. is_word x" and "\<forall>x \<in> set p. is_word x"
  shows "RegExp_new (removePropSource c p) = Inr (removePropPattern c p)"
  using assms
  by (simp add: removePropSource_def propSource_def removePropPattern_def parse_unfold)

text \<open>Patterns that read one code unit.\<close>

definition reads :: "regex \<Rightarrow> (char \<Rightarrow> bool) \<Rightarrow> bool" where
  "reads r P = (groups r = [] \<and> (\<forall>st. ms r st = step_char P st))"

lemma code_unit_eq: "code_unit a = code_unit b \<longleftrightarrow> a = b"
  by (simp add: code_unit_def)

lemma reads_Chr: "reads (Chr c) (\<lambda>x. x = c)"
  by (simp add: reads_def)

lemma reads_space: "reads space_class is_space"
  by (simp add: reads_def space_class_def)

lemma reads_not: "reads (not_class c) (\<lambda>x. x \<noteq> c)"
proof -
  have "(\<lambda>x. (code_unit c \<le> code_unit x \<and> code_unit x \<le> code_unit c) \<noteq> True) = (\<lambda>x. x \<noteq> c)"
    by (intro ext) (auto simp: code_unit_eq)
  then show ?thesis
    by (simp add: reads_def not_class_def)
qed

lemma reads_step: "reads r P \<Longrightarrow> ms r st = step_char P st"
  by (cases st) (simp add: reads_def)

lemma ms_zero: "ms (Rep r 0 (Some 0) g) st = [st]"
  by (cases st) (simp add: ms_Rep)

lemma ms_opt:
  "ms (opt r) (pre, post, caps) =
     filter (\<lambda>(pre', post', caps'). length post' < length post)
       (ms r (pre, post, reset_groups (groups r) caps)) @ [(pre, post, caps)]"
proof -
  have "ms (Rep r 0 (Some 0) True) = (\<lambda>st. [st])"
    by (intro ext) (rule ms_zero)
  then show ?thesis
    by (simp add: opt_def ms_Rep concat_map_single)
qed

lemma ms_star:
  "ms (star r) (pre, post, caps) =
     concat (map (ms (star r))
       (filter (\<lambda>(pre', post', caps'). length post' < length post)
          (ms r (pre, post, reset_groups (groups r) caps)))) @ [(pre, post, caps)]"
  by (simp add: star_def ms_Rep)

lemma ms_star_reads_Nil:
  assumes "reads r P"
  shows "ms (star r) (pre, [], caps) = [(pre, [], caps)]"
  using assms by (simp add: ms_star reads_def)

lemma ms_star_reads_Cons:
  assumes "reads r P"
  shows "ms (star r) (pre, c # cs, caps) =
     (if P c then ms (star r) (c # pre, cs, caps) @ [(pre, c # cs, caps)] else [(pre, c # cs, caps)])"
  using assms by (simp add: ms_star reads_def)

text \<open>A greedy star of such a pattern reads a longest run first.\<close>

lemma star_first:
  assumes "reads r P" and "\<forall>c \<in> set w. P c" and "post = [] \<or> \<not> P (hd post)"
  shows "\<exists>zs. ms (star r) (pre, w @ post, caps) = (rev w @ pre, post, caps) # zs"
  using assms(2)
proof (induction w arbitrary: pre)
  case Nil
  from assms(3) show ?case
    by (cases post) (simp_all add: ms_star_reads_Nil [OF assms(1)] ms_star_reads_Cons [OF assms(1)])
next
  case (Cons c w)
  then obtain zs where "ms (star r) (c # pre, w @ post, caps) = (rev w @ c # pre, post, caps) # zs"
    by fastforce
  with Cons.prems show ?case
    by (simp add: ms_star_reads_Cons [OF assms(1)])
qed

lemma star_reach:
  assumes "reads r P" and "\<forall>c \<in> set w. P c"
  shows "(rev w @ pre, post, caps) \<in> set (ms (star r) (pre, w @ post, caps))"
  using assms(2)
proof (induction w arbitrary: pre)
  case Nil
  show ?case
    by (cases post) (simp_all add: ms_star_reads_Nil [OF assms(1)] ms_star_reads_Cons [OF assms(1)])
next
  case (Cons c w)
  then have "(rev w @ c # pre, post, caps) \<in> set (ms (star r) (c # pre, w @ post, caps))"
    by fastforce
  with Cons.prems show ?case
    by (simp add: ms_star_reads_Cons [OF assms(1)])
qed

text \<open>Reaching a state in some way.\<close>

lemma reach_Cons:
  assumes "st1 \<in> set (ms r st)" and "st2 \<in> set (ms_list rs st1)"
  shows "st2 \<in> set (ms_list (r # rs) st)"
  using assms by auto

lemma ms_list_advances: "st' \<in> set (ms_list rs st) \<Longrightarrow> advances st st'"
proof (induction rs arbitrary: st)
  case Nil
  then show ?case by (simp add: advances_refl)
next
  case (Cons r rs)
  then obtain st1 where "st1 \<in> set (ms r st)" "st' \<in> set (ms_list rs st1)"
    by auto
  with Cons.IH ms_advances show ?case
    by (blast intro: advances_trans)
qed

text \<open>A pattern that ends in a literal code unit stops after that code unit.\<close>

lemma ends_with_literal:
  assumes "st' \<in> set (ms_list (rs @ [Chr c]) st)"
  shows "\<exists>w. fst (snd st) = w @ c # fst (snd st')"
proof -
  from assms obtain st1 where s1: "st1 \<in> set (ms_list rs st)"
    and s2: "st' \<in> set (ms (Chr c) st1)"
    by (auto simp: ms_list_append concat_map_single)
  from ms_list_advances [OF s1] obtain w where w: "fst (snd st) = w @ fst (snd st1)"
    by (auto simp: advances_def)
  from s2 have "st' \<in> set (step_char (\<lambda>x. x = c) st1)" by simp
  from step_char_suffix [OF this] have "fst (snd st1) = c # fst (snd st')" by auto
  with w show ?thesis by auto
qed

abbreviation init :: "regex \<Rightarrow> string option list" where
  "init r \<equiv> replicate (length (groups r)) None"

lemma search_skip:
  assumes "\<And>u1 c u2. u = u1 @ c # u2 \<Longrightarrow> ms r (rev u1 @ pre, c # u2 @ v, init r) = []"
  shows "search r pre (u @ v) = search r (rev u @ pre) v"
  using assms
proof (induction u arbitrary: pre)
  case Nil
  show ?case by simp
next
  case (Cons a u)
  from Cons.prems [of "[]" a u] have here: "ms r (pre, a # u @ v, init r) = []"
    by simp
  have "search r (a # pre) (u @ v) = search r (rev u @ a # pre) v"
  proof (rule Cons.IH)
    fix u1 c u2
    assume "u = u1 @ c # u2"
    then have "a # u = (a # u1) @ c # u2" by simp
    from Cons.prems [OF this] show "ms r (rev u1 @ a # pre, c # u2 @ v, init r) = []"
      by simp
  qed
  with here show ?case by simp
qed

lemma search_here: "ms r (pre, v, init r) = x # xs \<Longrightarrow> search r pre v = Some (pre, v, x)"
  by (cases v) simp_all

lemma search_none:
  assumes "\<And>u1 u2. v = u1 @ u2 \<Longrightarrow> ms r (rev u1 @ pre, u2, init r) = []"
  shows "search r pre v = None"
  using assms
proof (induction v arbitrary: pre)
  case Nil
  from Nil [of "[]" "[]"] show ?case by simp
next
  case (Cons a v)
  from Cons.prems [of "[]" "a # v"] have here: "ms r (pre, a # v, init r) = []"
    by simp
  have "search r (a # pre) v = None"
  proof (rule Cons.IH)
    fix u1 u2
    assume "v = u1 @ u2"
    then have "a # v = (a # u1) @ u2" by simp
    from Cons.prems [OF this] show "ms r (rev u1 @ a # pre, u2, init r) = []"
      by simp
  qed
  with here show ?case by simp
qed

text \<open>The search of a text \<open>u @ v\<close>, from the offset where \<open>v\<close> starts.\<close>

lemma exec_from:
  "exec r (u @ v) (length u) =
     (case search r (rev u) v of
        None \<Rightarrow> None
      | Some (pre, post, pre', post', caps) \<Rightarrow>
          Some \<lparr>m_index = length pre, m_text = take (length post - length post') post,
                m_groups = caps\<rparr>)"
  by (simp add: exec_def)

lemma exec_from_0:
  "exec r s 0 =
     (case search r [] s of
        None \<Rightarrow> None
      | Some (pre, post, pre', post', caps) \<Rightarrow>
          Some \<lparr>m_index = length pre, m_text = take (length post - length post') post,
                m_groups = caps\<rparr>)"
  by (simp add: exec_def)

text \<open>A text starts at no offset of \<open>u\<close>, in the text \<open>u @ v\<close>.\<close>

definition absent :: "string \<Rightarrow> string \<Rightarrow> string \<Rightarrow> bool" where
  "absent pat u v = list_all (\<lambda>i. \<not> prefix pat (drop i u @ v)) [0..<length u]"

lemma absent_split:
  assumes "absent pat u v" and "u = u1 @ c # u2"
  shows "\<not> prefix pat (c # u2 @ v)"
proof -
  from assms(2) have l: "length u1 < length u" and d: "drop (length u1) u = c # u2" by simp_all
  from assms(1) l have "\<not> prefix pat (drop (length u1) u @ v)"
    by (simp add: absent_def list_all_iff)
  with d show ?thesis by simp
qed

lemma prefix_longer:
  assumes "prefix p (y @ z)" and "length p \<le> length y"
  shows "prefix p y"
  using assms by (metis prefix_length_prefix prefixI)

lemma lits_no_start:
  "\<not> prefix w post \<Longrightarrow> ms_list (map Chr w @ rs) (pre, post, caps) = []"
  by (simp add: ms_list_append ms_list_lits)

lemma substitute_plain:
  \<open>CHR ''$'' \<notin> set w \<Longrightarrow> substitute (w @ t) s m = w @ substitute t s m\<close>
  by (induction w) auto

lemma concat_ms_list_Nil: "concat (map (ms_list []) xs) = xs"
proof -
  have "ms_list [] = (\<lambda>st. [st])" by (rule ext) simp
  then show ?thesis by (simp add: concat_map_single)
qed

lemma groups_simple:
  "groups space_class = []" "groups (not_class c) = []" "groups (star r) = groups r"
  "groups (opt r) = groups r" "groups (quoted q) = []" "groups prop_value = []"
  by (simp_all add: space_class_def not_class_def star_def opt_def quoted_def prop_value_def)

lemma opt_attrs_first:
  assumes "attrs = [] \<or> is_space (hd attrs)" and "CHR ''>'' \<notin> set attrs"
  shows "\<exists>zs. ms (opt (Seq space_class (star (not_class CHR ''>''))))
                 (pre, attrs @ CHR ''>'' # post, caps)
               = (rev attrs @ pre, CHR ''>'' # post, caps) # zs"
proof (cases attrs)
  case Nil
  have "\<not> is_space CHR ''>''"
    by (simp add: is_space_def code_unit_def)
  with Nil show ?thesis
    by (simp add: ms_opt reads_step [OF reads_space])
next
  case (Cons a as)
  with assms have a: "is_space a" and as: "\<forall>c \<in> set as. c \<noteq> CHR ''>''"
    by auto
  from star_first [OF reads_not as, of "CHR ''>'' # post" "a # pre" caps]
  obtain zs where
    "ms (star (not_class CHR ''>'')) (a # pre, as @ CHR ''>'' # post, caps)
       = (rev as @ a # pre, CHR ''>'' # post, caps) # zs"
    by auto
  with Cons a show ?thesis
    by (simp add: ms_opt reads_step [OF reads_space] groups_simple)
qed

lemma addProp_first:
  assumes "attrs = [] \<or> is_space (hd attrs)" and "CHR ''>'' \<notin> set attrs"
  shows "\<exists>zs. ms (addPropPattern c) (pre, CHR ''<'' # c @ attrs @ CHR ''>'' # post, [None, None])
     = (CHR ''>'' # rev attrs @ rev c @ CHR ''<'' # pre, post,
        [Some (CHR ''<'' # c @ attrs), Some ''>'']) # zs"
proof -
  let ?opt = "opt (Seq space_class (star (not_class CHR ''>'')))"
  let ?caps = "[None, None] :: string option list"
  from opt_attrs_first [OF assms, of "rev c @ CHR ''<'' # pre" post ?caps]
  obtain zs where o: "ms ?opt (rev c @ CHR ''<'' # pre, attrs @ CHR ''>'' # post, ?caps)
               = (rev attrs @ rev c @ CHR ''<'' # pre, CHR ''>'' # post, ?caps) # zs"
    by auto
  have "ms (mk_seq (Chr CHR ''<'' # map Chr c @ [?opt]))
          (pre, CHR ''<'' # c @ attrs @ CHR ''>'' # post, ?caps)
        = ms ?opt (rev c @ CHR ''<'' # pre, attrs @ CHR ''>'' # post, ?caps)"
    by (simp add: ms_mk_seq ms_list_append ms_list_lits concat_ms_list_Nil)
  with o have g: "ms (mk_seq (Chr CHR ''<'' # map Chr c @ [?opt]))
          (pre, CHR ''<'' # c @ attrs @ CHR ''>'' # post, ?caps)
        = (rev attrs @ rev c @ CHR ''<'' # pre, CHR ''>'' # post, ?caps) # zs"
    by simp
  show ?thesis
    unfolding addPropPattern_def
    by (simp add: g code_unit_def)
qed

lemma groups_mk_seq: "groups (mk_seq rs) = concat (map groups rs)"
  by (induction rs rule: mk_seq.induct) simp_all

lemma groups_lits: "concat (map groups (map Chr w)) = []"
  by (induction w) simp_all

lemma groups_addProp: "groups (addPropPattern c) = [1, 2]"
  by (simp add: addPropPattern_def groups_mk_seq groups_lits groups_simple)

lemma addProp_no_start:
  assumes "\<not> prefix (CHR ''<'' # c) post"
  shows "ms (addPropPattern c) (pre, post, caps) = []"
proof -
  have "ms_list (map Chr (CHR ''<'' # c) @ rs) (pre, post, caps) = []" for rs
    using assms by (rule lits_no_start)
  then show ?thesis
    by (simp add: addPropPattern_def ms_mk_seq)
qed

lemma absent_before:
  assumes "absent pat u pat" and "u = u1 @ x # u2"
  shows "\<not> prefix pat (x # u2 @ pat @ rest)"
proof
  assume "prefix pat (x # u2 @ pat @ rest)"
  then have "prefix pat ((x # u2 @ pat) @ rest)" by simp
  then have "prefix pat (x # u2 @ pat)"
    by (rule prefix_longer) simp
  with absent_split [OF assms] show False by simp
qed

lemma absent_after:
  assumes "absent pat u []" and "u = u1 @ u2" and "pat \<noteq> []"
  shows "\<not> prefix pat u2"
proof (cases u2)
  case Nil
  with assms(3) show ?thesis by simp
next
  case (Cons x u2')
  with assms(2) have "u = u1 @ x # u2'" by simp
  from absent_split [OF assms(1) this] Cons show ?thesis by simp
qed

lemma addProp_inserts:
  assumes c: "\<forall>x \<in> set c. is_word x" and p: "\<forall>x \<in> set p. is_word x"
    and v: "CHR ''$'' \<notin> set v"
    and attrs: "attrs = [] \<or> is_space (hd attrs)" "CHR ''>'' \<notin> set attrs"
    and before: "absent (CHR ''<'' # c) pre0 (CHR ''<'' # c)"
    and after: "absent (CHR ''<'' # c) post0 []"
  shows \<open>addProp engine (pre0 @ CHR ''<'' # c @ attrs @ CHR ''>'' # post0) c p v =
           Inr (pre0 @ CHR ''<'' # c @ attrs @ '' '' @ p @ ''="'' @ v @ ''"'' @ CHR ''>'' # post0)\<close>
proof -
  let ?r = "addPropPattern c"
  let ?tag = "CHR ''<'' # c @ attrs @ ''>''"
  let ?T = "pre0 @ ?tag @ post0"
  let ?m = "\<lparr>m_index = length pre0, m_text = ?tag,
             m_groups = [Some (CHR ''<'' # c @ attrs), Some ''>'']\<rparr>"
  let ?t = \<open>''$1 '' @ p @ ''="'' @ v @ ''"$2''\<close>
  from addProp_first [OF attrs, of c "rev pre0" post0]
  obtain zs where first: "ms ?r (rev pre0, ?tag @ post0, init ?r)
      = (CHR ''>'' # rev attrs @ rev c @ CHR ''<'' # rev pre0, post0,
         [Some (CHR ''<'' # c @ attrs), Some ''>'']) # zs"
    by (auto simp: groups_addProp numeral_2_eq_2)
  have "search ?r [] (pre0 @ ?tag @ post0) = search ?r (rev pre0 @ []) (?tag @ post0)"
  proof (rule search_skip)
    fix u1 x u2
    assume "pre0 = u1 @ x # u2"
    from absent_before [OF before this, of "attrs @ ''>'' @ post0"]
    have "\<not> prefix (CHR ''<'' # c) (x # u2 @ ?tag @ post0)" by simp
    then show "ms ?r (rev u1 @ [], x # u2 @ ?tag @ post0, init ?r) = []"
      by (rule addProp_no_start)
  qed
  also have "\<dots> = Some (rev pre0, ?tag @ post0,
      CHR ''>'' # rev attrs @ rev c @ CHR ''<'' # rev pre0, post0,
      [Some (CHR ''<'' # c @ attrs), Some ''>''])"
    using search_here [OF first] by simp
  finally have e1: "exec ?r ?T 0 = Some ?m"
    by (simp add: exec_from_0)
  have "search ?r (rev (pre0 @ ?tag)) post0 = None"
  proof (rule search_none)
    fix u1 u2
    assume "post0 = u1 @ u2"
    from absent_after [OF after this] have "\<not> prefix (CHR ''<'' # c) u2" by simp
    then show "ms ?r (rev u1 @ rev (pre0 @ ?tag), u2, init ?r) = []"
      by (rule addProp_no_start)
  qed
  then have "exec ?r ((pre0 @ ?tag) @ post0) (length (pre0 @ ?tag)) = None"
    by (simp only: exec_from option.case)
  then have e2: "exec ?r ?T (m_end ?m) = None"
    by (simp add: m_end_def)
  from p have "CHR ''$'' \<notin> set p"
    using is_word_not_special(11) by blast
  then have sub: \<open>substitute ?t ?T ?m = CHR ''<'' # c @ attrs @ '' '' @ p @ ''="'' @ v @ ''"'' @ ''>''\<close>
    using v by (simp add: substitute_plain group_def is_digit_def digit_val_def code_unit_def)
  have "replace_all (matcher ?r) ?T (template ?t ?T) =
      Inr (take (m_index ?m) ?T @ substitute ?t ?T ?m @ drop (m_end ?m) ?T)"
    by (rule replace_all_once [OF e1 _ _ e2]) (simp_all add: template_def)
  then have \<open>replace_template (matcher ?r) ?T ?t =
      Inr (pre0 @ CHR ''<'' # c @ attrs @ '' '' @ p @ ''="'' @ v @ ''"'' @ ''>'' @ post0)\<close>
    unfolding sub by (simp add: replace_template_def m_end_def)
  with addPropSource_compiles [OF c] show ?thesis
    by (simp add: addProp_def engine_def)
qed

lemma quoted_first:
  assumes "q \<notin> set v"
  shows "\<exists>zs. ms (quoted q) (pre, q # v @ q # post, caps) = (q # rev v @ q # pre, post, caps) # zs"
proof -
  from assms have "\<forall>c \<in> set v. c \<noteq> q" by auto
  from star_first [OF reads_not this, of "q # post" "q # pre" caps]
  obtain zs where "ms (star (not_class q)) (q # pre, v @ q # post, caps)
      = (rev v @ q # pre, q # post, caps) # zs"
    by auto
  then show ?thesis
    by (simp add: quoted_def)
qed

lemma prop_value_first:
  assumes "CHR 0x22 \<notin> set v"
  shows "\<exists>zs. ms prop_value (pre, CHR ''='' # CHR 0x22 # v @ CHR 0x22 # post, caps)
       = (CHR 0x22 # rev v @ CHR 0x22 # CHR ''='' # pre, post, caps) # zs"
proof -
  from quoted_first [OF assms, of "CHR ''='' # pre" post caps]
  obtain zs where "ms (quoted (CHR 0x22)) (CHR ''='' # pre, CHR 0x22 # v @ CHR 0x22 # post, caps)
      = (CHR 0x22 # rev v @ CHR 0x22 # CHR ''='' # pre, post, caps) # zs"
    by auto
  then show ?thesis
    by (simp add: prop_value_def ms_opt groups_simple)
qed

text \<open>The attribute that \<^verbatim>\<open>addProp\<close> inserts.\<close>

definition inserted :: "string \<Rightarrow> string \<Rightarrow> string" where
  \<open>inserted p v = '' '' @ p @ ''="'' @ v @ ''"''\<close>

lemma propPattern_first:
  assumes "CHR 0x22 \<notin> set v"
  shows "\<exists>zs. ms (propPattern p) (pre, inserted p v @ post, caps)
       = (rev (inserted p v) @ pre, post, caps) # zs"
proof -
  from prop_value_first [OF assms, of "rev p @ CHR '' '' # pre" post caps]
  obtain zs where "ms prop_value (rev p @ CHR '' '' # pre, CHR ''='' # CHR 0x22 # v @ CHR 0x22 # post, caps)
       = (CHR 0x22 # rev v @ CHR 0x22 # CHR ''='' # rev p @ CHR '' '' # pre, post, caps) # zs"
    by auto
  moreover have "is_space CHR '' ''"
    by (simp add: is_space_def code_unit_def)
  ultimately show ?thesis
    by (simp add: propPattern_def inserted_def ms_mk_seq ms_list_append ms_list_lits
        reads_step [OF reads_space] concat_ms_list_Nil)
qed

lemma prefix_stop:
  assumes "prefix p (u @ x # r)" and "x \<notin> set p"
  shows "prefix p u"
proof (rule ccontr)
  assume n: "\<not> prefix p u"
  from assms(1) obtain t where t: "u @ x # r = p @ t" by (auto simp: prefix_def)
  then obtain us where "(u = p @ us \<and> us @ x # r = t) \<or> (u @ us = p \<and> x # r = us @ t)"
    by (auto simp: append_eq_append_conv2)
  then show False
  proof
    assume "u = p @ us \<and> us @ x # r = t"
    with n show False by simp
  next
    assume a: "u @ us = p \<and> x # r = us @ t"
    show False
    proof (cases us)
      case Nil
      with a n show False by simp
    next
      case (Cons y ys)
      with a have "x \<in> set p" by auto
      with assms(2) show False by simp
    qed
  qed
qed

text \<open>No white space of the attributes is followed by the name of the attribute.\<close>

definition no_attr :: "string \<Rightarrow> string \<Rightarrow> bool" where
  "no_attr p attrs =
     list_all (\<lambda>i. \<not> (is_space (attrs ! i) \<and> prefix p (drop (Suc i) attrs))) [0..<length attrs]"

lemma no_attr_split:
  assumes "no_attr p attrs" and "attrs = a1 @ x # u2" and "is_space x"
  shows "\<not> prefix p u2"
proof -
  from assms(2) have l: "length a1 < length attrs" and x: "attrs ! length a1 = x"
    and d: "drop (Suc (length a1)) attrs = u2"
    by simp_all
  from assms(1) l have "\<not> (is_space (attrs ! length a1) \<and> prefix p (drop (Suc (length a1)) attrs))"
    by (simp add: no_attr_def list_all_iff)
  with x d assms(3) show ?thesis by simp
qed

lemma propPattern_no_start:
  assumes p: "\<forall>x \<in> set p. is_word x" and c: "\<forall>x \<in> set c. is_word x"
    and n: "no_attr p attrs" and s: "CHR ''<'' # c @ attrs = u1 @ x # u2"
  shows "ms (propPattern p) (pre, x # u2 @ inserted p v @ post, caps) = []"
proof (cases "is_space x")
  case False
  then show ?thesis
    by (simp add: propPattern_def ms_mk_seq reads_step [OF reads_space])
next
  case True
  have "\<not> is_space CHR ''<''"
    by (simp add: is_space_def code_unit_def)
  with c have nc: "\<not> is_space y" if "y \<in> set (CHR ''<'' # c)" for y
    using that is_word_not_special(17) [of y] by (cases "y = CHR ''<''") simp_all
  from s have "(CHR ''<'' # c) @ attrs = u1 @ (x # u2)" by simp
  then obtain us where
    "(CHR ''<'' # c = u1 @ us \<and> us @ attrs = x # u2) \<or> ((CHR ''<'' # c) @ us = u1 \<and> attrs = us @ x # u2)"
    unfolding append_eq_append_conv2 by blast
  then have "\<exists>a1. attrs = a1 @ x # u2"
  proof
    assume a: "CHR ''<'' # c = u1 @ us \<and> us @ attrs = x # u2"
    show ?thesis
    proof (cases us)
      case Nil
      with a have "attrs = [] @ x # u2" by simp
      then show ?thesis by blast
    next
      case (Cons y ys)
      with a have "y = x" and "CHR ''<'' # c = u1 @ x # ys" by simp_all
      then have "x \<in> set (CHR ''<'' # c)"
        by (simp only: set_append list.set) simp
      from nc [OF this] True show ?thesis by simp
    qed
  next
    assume "(CHR ''<'' # c) @ us = u1 \<and> attrs = us @ x # u2"
    then show ?thesis by blast
  qed
  then obtain a1 where "attrs = a1 @ x # u2" ..
  from no_attr_split [OF n this True] have np: "\<not> prefix p u2" .
  have sp: "CHR '' '' \<notin> set p"
    using p is_word_not_special(16) by blast
  have "\<not> prefix p (u2 @ inserted p v @ post)"
  proof
    assume "prefix p (u2 @ inserted p v @ post)"
    then have "prefix p (u2 @ CHR '' '' # (p @ CHR ''='' # CHR 0x22 # v @ CHR 0x22 # post))"
      by (simp add: inserted_def)
    from prefix_stop [OF this sp] np show False by simp
  qed
  then have "ms_list (map Chr p @ [prop_value]) (x # pre, u2 @ inserted p v @ post, caps) = []"
    by (rule lits_no_start)
  with True show ?thesis
    by (simp add: propPattern_def ms_mk_seq reads_step [OF reads_space])
qed

lemma groups_propPattern: "groups (propPattern p) = []"
  by (simp add: propPattern_def groups_mk_seq groups_lits groups_simple)

lemma remove_inserted:
  assumes p: "\<forall>x \<in> set p. is_word x" and c: "\<forall>x \<in> set c. is_word x"
    and n: "no_attr p attrs" and v: "CHR 0x22 \<notin> set v"
  shows "replace_first (matcher (propPattern p)) (CHR ''<'' # c @ attrs @ inserted p v @ rest)
           (template [] (CHR ''<'' # c @ attrs @ inserted p v @ rest))
         = Inr (CHR ''<'' # c @ attrs @ rest)"
proof -
  let ?r = "propPattern p"
  let ?h = "CHR ''<'' # c @ attrs"
  let ?M = "?h @ inserted p v @ rest"
  from propPattern_first [OF v, of p "rev ?h" rest "[]"]
  obtain zs where first: "ms ?r (rev ?h, inserted p v @ rest, init ?r)
       = (rev (inserted p v) @ rev ?h, rest, []) # zs"
    by (auto simp: groups_propPattern)
  have "search ?r [] (?h @ inserted p v @ rest) = search ?r (rev ?h @ []) (inserted p v @ rest)"
  proof (rule search_skip)
    fix u1 x u2
    assume "?h = u1 @ x # u2"
    from propPattern_no_start [OF p c n this]
    show "ms ?r (rev u1 @ [], x # u2 @ inserted p v @ rest, init ?r) = []" .
  qed
  also have "\<dots> = Some (rev ?h, inserted p v @ rest, rev (inserted p v) @ rev ?h, rest, [])"
    using search_here [OF first] by simp
  finally have "exec ?r ?M 0 = Some \<lparr>m_index = length ?h, m_text = inserted p v, m_groups = []\<rparr>"
    by (simp add: exec_from_0)
  then show ?thesis
    by (simp add: replace_first_def pattern_exec_matcher template_def m_end_def)
qed

lemma removePropPattern_snoc:
  "removePropPattern c p =
     mk_seq ((Chr CHR ''<'' # map Chr c @ [star (not_class CHR ''>''), space_class] @ map Chr p
               @ [prop_value, star (not_class CHR ''>'')]) @ [Chr CHR ''>''])"
  by (simp add: removePropPattern_def)

lemma groups_removeProp: "groups (removePropPattern c p) = []"
  by (simp add: removePropPattern_def groups_mk_seq groups_lits groups_simple)

lemma removeProp_no_start:
  assumes "\<not> prefix (CHR ''<'' # c) post"
  shows "ms (removePropPattern c p) (pre, post, caps) = []"
proof -
  have "ms_list (map Chr (CHR ''<'' # c) @ rs) (pre, post, caps) = []" for rs
    using assms by (rule lits_no_start)
  then show ?thesis
    by (simp add: removePropPattern_def ms_mk_seq)
qed

lemma removeProp_stops:
  assumes "st' \<in> set (ms (removePropPattern c p) (pre, body @ CHR ''>'' # post0, caps))"
    and "CHR ''>'' \<notin> set body"
  shows "\<exists>u. post0 = u @ fst (snd st')"
proof -
  from assms(1) have "st' \<in> set (ms_list
      ((Chr CHR ''<'' # map Chr c @ [star (not_class CHR ''>''), space_class] @ map Chr p
               @ [prop_value, star (not_class CHR ''>'')]) @ [Chr CHR ''>''])
      (pre, body @ CHR ''>'' # post0, caps))"
    by (simp only: removePropPattern_snoc ms_mk_seq)
  from ends_with_literal [OF this] obtain w where
    w: "body @ CHR ''>'' # post0 = w @ CHR ''>'' # fst (snd st')"
    by auto
  then obtain us where
    "(body = w @ us \<and> us @ CHR ''>'' # post0 = CHR ''>'' # fst (snd st'))
      \<or> (body @ us = w \<and> CHR ''>'' # post0 = us @ CHR ''>'' # fst (snd st'))"
    unfolding append_eq_append_conv2 by blast
  then show ?thesis
  proof
    assume a: "body = w @ us \<and> us @ CHR ''>'' # post0 = CHR ''>'' # fst (snd st')"
    show ?thesis
    proof (cases us)
      case Nil
      with a have "post0 = [] @ fst (snd st')" by simp
      then show ?thesis by blast
    next
      case (Cons y ys)
      with a have "y = CHR ''>''" and "body = w @ y # ys" by simp_all
      then have "CHR ''>'' \<in> set body" by simp
      with assms(2) show ?thesis by simp
    qed
  next
    assume a: "body @ us = w \<and> CHR ''>'' # post0 = us @ CHR ''>'' # fst (snd st')"
    show ?thesis
    proof (cases us)
      case Nil
      with a have "post0 = [] @ fst (snd st')" by simp
      then show ?thesis by blast
    next
      case (Cons y ys)
      with a have "post0 = (ys @ ''>'') @ fst (snd st')" by simp
      then show ?thesis by blast
    qed
  qed
qed

lemma in_concat_map: "x \<in> set xs \<Longrightarrow> y \<in> set (f x) \<Longrightarrow> y \<in> set (concat (map f xs))"
  by auto

lemma removeProp_reach:
  assumes "CHR ''>'' \<notin> set attrs" and "CHR 0x22 \<notin> set v"
  shows "(CHR ''>'' # rev (inserted p v) @ rev attrs @ rev c @ CHR ''<'' # pre, post, caps)
     \<in> set (ms (removePropPattern c p)
              (pre, CHR ''<'' # c @ attrs @ inserted p v @ CHR ''>'' # post, caps))"
proof -
  let ?gt = "star (not_class CHR ''>'')"
  let ?s1 = "(rev c @ CHR ''<'' # pre, attrs @ inserted p v @ CHR ''>'' # post, caps)"
  let ?s2 = "(rev attrs @ rev c @ CHR ''<'' # pre, inserted p v @ CHR ''>'' # post, caps)"
  let ?s3 = "(rev p @ CHR '' '' # rev attrs @ rev c @ CHR ''<'' # pre,
              CHR ''='' # CHR 0x22 # v @ CHR 0x22 # CHR ''>'' # post, caps)"
  let ?s4 = "(rev (inserted p v) @ rev attrs @ rev c @ CHR ''<'' # pre, CHR ''>'' # post, caps)"
  let ?s5 = "(CHR ''>'' # rev (inserted p v) @ rev attrs @ rev c @ CHR ''<'' # pre, post, caps)"
  have sp: "is_space CHR '' ''"
    by (simp add: is_space_def code_unit_def)
  from prop_value_first [OF assms(2), of "rev p @ CHR '' '' # rev attrs @ rev c @ CHR ''<'' # pre"
      "CHR ''>'' # post" caps]
  have pv: "?s4 \<in> set (ms prop_value ?s3)"
    by (auto simp: inserted_def)
  from star_reach [OF reads_not [of "CHR ''>''"], where w = "[]"
      and pre = "rev (inserted p v) @ rev attrs @ rev c @ CHR ''<'' # pre"
      and post = "CHR ''>'' # post" and caps = caps]
  have st: "?s4 \<in> set (ms ?gt ?s4)"
    by simp
  have e4: "?s5 \<in> set (ms_list [Chr CHR ''>''] ?s4)"
    by simp
  have e5: "?s5 \<in> set (ms_list [?gt, Chr CHR ''>''] ?s4)"
    using st e4 by (rule reach_Cons)
  have e3: "?s5 \<in> set (ms_list [prop_value, ?gt, Chr CHR ''>''] ?s3)"
    using pv e5 by (rule reach_Cons)
  have e2: "?s5 \<in> set (ms_list (space_class # map Chr p @ [prop_value, ?gt, Chr CHR ''>'']) ?s2)"
    using e3 sp
    by (simp add: inserted_def reads_step [OF reads_space] ms_list_append ms_list_lits)
  from assms(1) have "\<forall>x \<in> set attrs. x \<noteq> CHR ''>''" by auto
  from star_reach [OF reads_not this, where pre = "rev c @ CHR ''<'' # pre"
      and post = "inserted p v @ CHR ''>'' # post" and caps = caps]
  have a: "?s2 \<in> set (ms ?gt ?s1)"
    by simp
  have e1: "?s5 \<in> set (ms_list (?gt # space_class # map Chr p @ [prop_value, ?gt, Chr CHR ''>'']) ?s1)"
    using a e2 by (rule reach_Cons)
  then show ?thesis
    by (simp add: removePropPattern_def ms_mk_seq ms_list_append ms_list_lits)
qed

lemma removeProp_restores:
  assumes c: "\<forall>x \<in> set c. is_word x" and p: "\<forall>x \<in> set p. is_word x"
    and v: "CHR 0x22 \<notin> set v" "CHR ''>'' \<notin> set v"
    and attrs: "CHR ''>'' \<notin> set attrs" "no_attr p attrs"
    and before: "absent (CHR ''<'' # c) pre0 (CHR ''<'' # c)"
    and after: "absent (CHR ''<'' # c) post0 []"
  shows "removeProp engine (pre0 @ CHR ''<'' # c @ attrs @ inserted p v @ CHR ''>'' # post0) c p =
           Inr (pre0 @ CHR ''<'' # c @ attrs @ CHR ''>'' # post0)"
proof -
  let ?r = "removePropPattern c p"
  let ?body = "CHR ''<'' # c @ attrs @ inserted p v"
  let ?T = "pre0 @ ?body @ CHR ''>'' # post0"
  let ?f = "\<lambda>m. case engine (propSource p) of
                   Inl e \<Rightarrow> Inl e
                 | Inr inner \<Rightarrow> replace_first inner (m_text m) (template [] (m_text m))"
  have gt: "CHR ''>'' \<notin> set ?body"
    using c p v attrs(1) is_word_not_special(14) by (auto simp: inserted_def)
  from removeProp_reach [OF attrs(1) v(1), of p c "rev pre0" post0 "[]"]
  have "ms ?r (rev pre0, ?body @ CHR ''>'' # post0, []) \<noteq> []"
    by auto
  then obtain x zs where first: "ms ?r (rev pre0, ?body @ CHR ''>'' # post0, []) = x # zs"
    by (cases "ms ?r (rev pre0, ?body @ CHR ''>'' # post0, [])") auto
  obtain px q cx where x: "x = (px, q, cx)" by (cases x)
  from first have "x \<in> set (ms ?r (rev pre0, ?body @ CHR ''>'' # post0, []))" by simp
  from removeProp_stops [OF this gt] x obtain u where u: "post0 = u @ q" by auto
  let ?m = "\<lparr>m_index = length pre0, m_text = ?body @ CHR ''>'' # u, m_groups = cx\<rparr>"
  have "search ?r [] (pre0 @ ?body @ CHR ''>'' # post0)
      = search ?r (rev pre0 @ []) (?body @ CHR ''>'' # post0)"
  proof (rule search_skip)
    fix u1 y u2
    assume "pre0 = u1 @ y # u2"
    from absent_before [OF before this, of "attrs @ inserted p v @ CHR ''>'' # post0"]
    have "\<not> prefix (CHR ''<'' # c) (y # u2 @ ?body @ CHR ''>'' # post0)" by simp
    then show "ms ?r (rev u1 @ [], y # u2 @ ?body @ CHR ''>'' # post0, init ?r) = []"
      by (rule removeProp_no_start)
  qed
  also have "\<dots> = Some (rev pre0, ?body @ CHR ''>'' # post0, x)"
    using search_here [of ?r "rev pre0" "?body @ CHR ''>'' # post0" x zs] first
    by (simp add: groups_removeProp)
  finally have "exec ?r ?T 0 = Some \<lparr>m_index = length pre0,
      m_text = take (length (?body @ CHR ''>'' # post0) - length q) (?body @ CHR ''>'' # post0),
      m_groups = cx\<rparr>"
    by (simp add: exec_from_0 x)
  moreover have "take (length (?body @ CHR ''>'' # post0) - length q) (?body @ CHR ''>'' # post0)
      = ?body @ CHR ''>'' # u"
    using u by simp
  ultimately have e1: "exec ?r ?T 0 = Some ?m"
    by simp
  have T: "?T = (pre0 @ ?body @ CHR ''>'' # u) @ q"
    using u by simp
  have "search ?r (rev (pre0 @ ?body @ CHR ''>'' # u)) q = None"
  proof (rule search_none)
    fix u1 u2
    assume "q = u1 @ u2"
    with u have "post0 = (u @ u1) @ u2" by simp
    from absent_after [OF after this] have "\<not> prefix (CHR ''<'' # c) u2" by simp
    then show "ms ?r (rev u1 @ rev (pre0 @ ?body @ CHR ''>'' # u), u2, init ?r) = []"
      by (rule removeProp_no_start)
  qed
  then have "exec ?r ((pre0 @ ?body @ CHR ''>'' # u) @ q) (length (pre0 @ ?body @ CHR ''>'' # u)) = None"
    by (simp only: exec_from option.case)
  then have e2: "exec ?r ?T (m_end ?m) = None"
    unfolding T by (simp add: m_end_def)
  from remove_inserted [OF p c attrs(2) v(1), of "CHR ''>'' # u"]
  have f: "?f ?m = Inr (CHR ''<'' # c @ attrs @ CHR ''>'' # u)"
    by (simp add: engine_def propSource_compiles [OF p])
  have "replace_all (matcher ?r) ?T ?f =
      Inr (take (m_index ?m) ?T @ (CHR ''<'' # c @ attrs @ CHR ''>'' # u) @ drop (m_end ?m) ?T)"
    by (rule replace_all_once [where f = ?f and m = ?m, OF e1 _ f e2]) simp
  moreover have "drop (m_end ?m) ?T = q"
    unfolding T by (simp add: m_end_def)
  ultimately have "replace_all (matcher ?r) ?T ?f =
      Inr (pre0 @ CHR ''<'' # c @ attrs @ CHR ''>'' # post0)"
    using u by simp
  with removePropSource_compiles [OF c p] show ?thesis
    by (simp add: removeProp_def engine_def)
qed

text \<open>
  Where the round trip holds. Take a text in which \<^verbatim>\<open><c\<close> starts at one offset only,
  where it opens a tag \<^verbatim>\<open><c attrs>\<close>; the names \<open>c\<close> of the component and \<open>p\<close> of the
  attribute are made of letters, digits and underscores; \<open>attrs\<close> is empty or starts with
  white space, has no \<^verbatim>\<open>>\<close>, and no white space in it is followed by \<open>p\<close>; the value \<open>v\<close> has
  no double quote, no \<^verbatim>\<open>$\<close> and no \<^verbatim>\<open>>\<close>. Then \<^verbatim>\<open>addProp\<close> puts the attribute before the
  \<^verbatim>\<open>>\<close> of the tag, and \<^verbatim>\<open>removeProp\<close> on the result returns the text as it was.
\<close>

lemma addProp_removeProp_single_tag:
  assumes "\<forall>x \<in> set c. is_word x" and "\<forall>x \<in> set p. is_word x"
    and "CHR 0x22 \<notin> set v" and "CHR ''$'' \<notin> set v" and "CHR ''>'' \<notin> set v"
    and "attrs = [] \<or> is_space (hd attrs)" and "CHR ''>'' \<notin> set attrs" and "no_attr p attrs"
    and "absent (CHR ''<'' # c) pre0 (CHR ''<'' # c)" and "absent (CHR ''<'' # c) post0 []"
  shows \<open>addProp engine (pre0 @ CHR ''<'' # c @ attrs @ CHR ''>'' # post0) c p v =
           Inr (pre0 @ CHR ''<'' # c @ attrs @ '' '' @ p @ ''="'' @ v @ ''"'' @ CHR ''>'' # post0)
     \<and> removeProp engine
           (pre0 @ CHR ''<'' # c @ attrs @ '' '' @ p @ ''="'' @ v @ ''"'' @ CHR ''>'' # post0) c p =
           Inr (pre0 @ CHR ''<'' # c @ attrs @ CHR ''>'' # post0)\<close>
proof
  show \<open>addProp engine (pre0 @ CHR ''<'' # c @ attrs @ CHR ''>'' # post0) c p v =
           Inr (pre0 @ CHR ''<'' # c @ attrs @ '' '' @ p @ ''="'' @ v @ ''"'' @ CHR ''>'' # post0)\<close>
    using assms(1,2,4,6,7,9,10) by (rule addProp_inserts)
  have \<open>removeProp engine (pre0 @ CHR ''<'' # c @ attrs @ inserted p v @ CHR ''>'' # post0) c p =
           Inr (pre0 @ CHR ''<'' # c @ attrs @ CHR ''>'' # post0)\<close>
    using assms(1,2,3,5,7,8,9,10) by (rule removeProp_restores)
  then show \<open>removeProp engine
           (pre0 @ CHR ''<'' # c @ attrs @ '' '' @ p @ ''="'' @ v @ ''"'' @ CHR ''>'' # post0) c p =
           Inr (pre0 @ CHR ''<'' # c @ attrs @ CHR ''>'' # post0)\<close>
    by (simp add: inserted_def)
qed

lemma addProp_removeProp_examples:
  \<open>addProp engine ''<div><Button onClick={go}>Click</Button></div>'' ''Button'' ''disabled'' ''true'' =
        Inr ''<div><Button onClick={go} disabled="true">Click</Button></div>''
   \<and> removeProp engine ''<div><Button onClick={go} disabled="true">Click</Button></div>''
          ''Button'' ''disabled'' =
        Inr ''<div><Button onClick={go}>Click</Button></div>''
   \<and> addProp engine ''<B a="1"><B b="2">'' ''B'' ''p'' ''v'' = Inr ''<B a="1" p="v"><B b="2" p="v">''
   \<and> removeProp engine ''<B a="1" p="v"><B b="2" p="v">'' ''B'' ''p'' = Inr ''<B a="1"><B b="2">''\<close>
  by code_simp

text \<open>
  Claim C6. The attribute is not in the text, and \<^verbatim>\<open>addProp\<close> followed by \<^verbatim>\<open>removeProp\<close>
  should return the text. The pattern of \<^verbatim>\<open>removeProp\<close> ends the name of the attribute
  nowhere, so it takes the first white space followed by the name also where a longer
  name starts with it. In the first text the tag has an attribute \<^verbatim>\<open>propX\<close> and none
  named \<^verbatim>\<open>prop\<close>: \<^verbatim>\<open>addProp\<close> adds \<^verbatim>\<open>prop\<close> at the end of the tag, and \<^verbatim>\<open>removeProp\<close> cuts
  \<^verbatim>\<open> prop\<close> out of \<^verbatim>\<open> propX\<close> and leaves the added attribute. The second text is one on
  which \<^verbatim>\<open>removeProp\<close> alone does the same, with an attribute that the tag has.
\<close>

theorem removeProp_cuts_longer_name:
  \<open>addProp engine ''<B propX="1">'' ''B'' ''prop'' ''v'' = Inr ''<B propX="1" prop="v">''
   \<and> removeProp engine ''<B propX="1" prop="v">'' ''B'' ''prop'' = Inr ''<BX="1" prop="v">''
   \<and> removeProp engine ''<Input disabledStyle="x" disabled>'' ''Input'' ''disabled'' =
        Inr ''<InputStyle="x" disabled>''\<close>
  by code_simp

section \<open>The group of the function name\<close>

lemma caps_kept:
  "groups r = [] \<Longrightarrow> st' \<in> set (ms r st) \<Longrightarrow> snd (snd st') = snd (snd st)"
proof (induction r st arbitrary: st' rule: ms.induct)
  case (1 st)
  then show ?case by simp
next
  case (2 c st)
  then show ?case by (auto dest: step_char_suffix)
next
  case (3 st)
  then show ?case by (auto dest: step_char_suffix)
next
  case (4 neg items st)
  then show ?case by (auto dest: step_char_suffix)
next
  case (5 a b st)
  from 5(4) obtain st1 where s1: "st1 \<in> set (ms a st)" and s2: "st' \<in> set (ms b st1)"
    by auto
  from 5(3) have g: "groups a = []" "groups b = []" by simp_all
  from 5(1) [OF g(1) s1] 5(2) [OF s1 g(2) s2] show ?case by simp
next
  case (6 a b st)
  from 6(3) have g: "groups a = []" "groups b = []" by simp_all
  from 6(4) have "st' \<in> set (ms a st) \<or> st' \<in> set (ms b st)" by simp
  with 6(1) [OF g(1)] 6(2) [OF g(2)] show ?case by blast
next
  case (7 k r pre post caps)
  then show ?case by simp
next
  case (8 pos r pre post caps)
  from 8(2) have g: "groups r = []" by simp
  show ?case
  proof (cases "ms r (pre, post, caps)")
    case Nil
    with 8(3) show ?thesis by (auto split: if_splits)
  next
    case (Cons x xs)
    then have "x \<in> set (ms r (pre, post, caps))" by simp
    from 8(1) [OF g this] have "snd (snd x) = caps" by simp
    with Cons 8(3) show ?thesis
      by (cases x) (auto split: if_splits)
  qed
next
  case (9 b pre post caps)
  then show ?case by (auto simp: Let_def split: if_splits)
next
  case (10 pre post caps)
  then show ?case by (auto split: if_splits)
next
  case (11 pre post caps)
  then show ?case by (auto split: if_splits)
next
  case (12 r mn mx g pre post caps)
  from 12(3) have gr: "groups r = []" by simp
  show ?case
  proof (cases "mx = Some 0")
    case True
    with 12(4) show ?thesis by (subst (asm) ms_Rep) simp
  next
    case False
    let ?st = "(pre, post, caps)"
    let ?ok = "(\<lambda>(pre', post', caps'). 0 < mn \<or> length post' < length post) :: mstate \<Rightarrow> bool"
    let ?iter = "concat (map (ms (Rep r (mn - 1) (dec mx) g)) (filter ?ok (ms r ?st)))"
    have "ms (Rep r mn mx g) ?st =
        (if 0 < mn then ?iter else if g then ?iter @ [?st] else ?st # ?iter)"
      using False gr by (subst ms_Rep) (simp add: Let_def)
    with 12(4) have "st' \<in> set ?iter \<or> st' = ?st"
      by (auto split: if_splits)
    then show ?thesis
    proof
      assume "st' \<in> set ?iter"
      then obtain st1 where s1: "st1 \<in> set (filter ?ok (ms r ?st))"
        and s2: "st' \<in> set (ms (Rep r (mn - 1) (dec mx) g) st1)"
        by auto
      from s1 have s1': "st1 \<in> set (ms r (pre, post, reset_groups (groups r) caps))"
        by (simp add: gr)
      from 12(1) False gr s1' have k1: "snd (snd st1) = caps"
        by fastforce
      obtain p1 q1 c1 where st1: "st1 = (p1, q1, c1)" by (cases st1)
      from s1 have s1'': "st1 \<in> set (filter ?ok (ms r (pre, post, reset_groups (groups r) caps)))"
        by (simp add: gr)
      have gR: "groups (Rep r (mn - 1) (dec mx) g) = []" using gr by simp
      from 12(2) False s1'' s2 gR have "snd (snd st') = snd (snd st1)"
        unfolding st1 by blast
      with k1 show ?thesis by simp
    next
      assume "st' = ?st"
      then show ?thesis by simp
    qed
  qed
qed

lemma search_member:
  "search r pre post = Some (pre1, post1, m) \<Longrightarrow>
     m \<in> set (ms r (pre1, post1, replicate (length (groups r)) None))"
  by (induction r pre post rule: search.induct) (auto split: list.splits)

text \<open>
  Every match of the pattern for the name of a function has the name in its first
  group, so the result \<^verbatim>\<open>functionNameMatch[1]\<close> is never \<^verbatim>\<open>undefined\<close>.
\<close>

lemma seq_member:
  "st' \<in> set (ms (Seq a b) st) \<Longrightarrow> \<exists>st1. st1 \<in> set (ms a st) \<and> st' \<in> set (ms b st1)"
  by auto

lemma functionName_group:
  assumes "exec functionNamePattern s i = Some m"
  shows "\<exists>n. group m 1 = Some n"
proof -
  define A where "A = Alt (mk_seq (map Chr ''function'')) (mk_seq (map Chr ''const''))"
  define S where "S = Rep (Class False [Esc False Spaces]) 1 None True"
  define X where "X = Seq (Class False
                         [CRange CHR ''A'' CHR ''Z'', CRange CHR ''a'' CHR ''z'',
                          CRange CHR ''_'' CHR ''_'', CRange CHR ''$'' CHR ''$''])
                    (Rep (Class False
                            [CRange CHR ''A'' CHR ''Z'', CRange CHR ''a'' CHR ''z'',
                             CRange CHR ''0'' CHR ''9'', CRange CHR ''_'' CHR ''_'',
                             CRange CHR ''$'' CHR ''$''])
                       0 None True)"
  define B where "B = Seq (Rep (Class False [Esc False Spaces]) 0 None True)
                        (Alt (Chr CHR ''('') (Chr CHR ''=''))"
  have fnp: "functionNamePattern = Seq A (Seq S (Seq (Group 1 X) B))"
    by (simp add: functionNamePattern_def A_def S_def X_def B_def)
  have g: "groups A = []" "groups S = []" "groups X = []" "groups B = []"
    by (simp_all add: A_def S_def X_def B_def)
  have gs: "replicate (length (groups (Seq A (Seq S (Seq (Group 1 X) B))))) None = [None]"
    by (simp add: g)
  from assms obtain pre post st where
    s: "search functionNamePattern (rev (take i s)) (drop i s) = Some (pre, post, st)"
    and m: "m_groups m = snd (snd st)"
    by (auto simp: exec_def split: if_splits option.splits)
  from search_member [OF s] have "st \<in> set (ms (Seq A (Seq S (Seq (Group 1 X) B))) (pre, post, [None]))"
    unfolding fnp gs .
  from seq_member [OF this] obtain s1 where s1: "s1 \<in> set (ms A (pre, post, [None]))"
    and r1: "st \<in> set (ms (Seq S (Seq (Group 1 X) B)) s1)"
    by blast
  from seq_member [OF r1] obtain s2 where s2: "s2 \<in> set (ms S s1)"
    and r2: "st \<in> set (ms (Seq (Group 1 X) B) s2)"
    by blast
  from seq_member [OF r2] obtain s3 where s3: "s3 \<in> set (ms (Group 1 X) s2)"
    and s4: "st \<in> set (ms B s3)"
    by blast
  from caps_kept [OF g(1) s1] have c1: "snd (snd s1) = [None]" by simp
  from caps_kept [OF g(2) s2] c1 have c2: "snd (snd s2) = [None]" by simp
  obtain p2 q2 where s2': "s2 = (p2, q2, [None])"
    using c2 by (cases s2) auto
  from s3 obtain x where x: "x \<in> set (ms X (p2, q2, [None]))"
    and s3': "snd (snd s3) = (snd (snd x))[0 := Some (rev (take (length (fst x) - length p2) (fst x)))]"
    unfolding s2' by auto
  from caps_kept [OF g(3) x] have "snd (snd x) = [None]" by simp
  with s3' have c3: "snd (snd s3) = [Some (rev (take (length (fst x) - length p2) (fst x)))]"
    by simp
  from caps_kept [OF g(4) s4] c3 m
  have "m_groups m = [Some (rev (take (length (fst x) - length p2) (fst x)))]"
    by simp
  then show ?thesis
    by (simp add: group_def)
qed

end
